theory Spec2Isabelle
  imports Main "HOL-Library.Log_Nat" "HOL-Library.Multiset"
begin

section \<open>Data model (src/types/database.ts)\<close>

text \<open>
  \<^verbatim>\<open>TaskStatus\<close> is declared as the union of the five string literals
  \<^verbatim>\<open>'todo' | 'in_progress' | 'in_review' | 'done' | 'completed'\<close>. At run time a
  status is a JavaScript string, and both cores compare it with \<^verbatim>\<open>===\<close> against
  literals, so the model keeps it a string: a status outside the five literals is an
  unrecognised status.

  A timestamp field holds an ISO string that the code only ever reads through
  \<^verbatim>\<open>new Date(s)\<close>. The model stores the parsed value: the time value in milliseconds
  (an integer) or the invalid date, whose time value is NaN. A nullable field that is
  \<^verbatim>\<open>null\<close> (or the empty string, which is falsy as well) is \<open>None\<close>.
\<close>

type_synonym TaskStatus = string

datatype JSDate = InvalidDate | DateAt int

record Task =
  task_id :: string
  task_name :: string
  assigned_user_id :: string
  status :: TaskStatus
  start_time :: "JSDate option"
  finish_time :: "JSDate option"
  deadline :: JSDate
  pending_approval :: bool

record Profile =
  profile_id :: string
  email :: string
  full_name :: "string option"
  avatar_url :: "string option"
  is_approved :: bool

datatype js_error = TypeError

text \<open>
  The property names every object literal inherits from \<^verbatim>\<open>Object.prototype\<close>. Reading
  one of them from an object that has no own property of that name yields the inherited
  value (a function, or the prototype object itself for \<^verbatim>\<open>__proto__\<close>), which is truthy
  and has no \<^verbatim>\<open>push\<close> method.
\<close>

definition protoKeys :: "string list" where
  "protoKeys =
     [''constructor'', ''__defineGetter__'', ''__defineSetter__'', ''hasOwnProperty'',
      ''__lookupGetter__'', ''__lookupSetter__'', ''isPrototypeOf'', ''propertyIsEnumerable'',
      ''toString'', ''valueOf'', ''__proto__'', ''toLocaleString'']"

section \<open>Kanban board (KanbanBoard component)\<close>

subsection \<open>Column grouping: \<^verbatim>\<open>tasksByStatus\<close>\<close>

definition columns :: "TaskStatus list" where
  "columns = [''todo'', ''in_progress'', ''in_review'', ''completed'']"

text \<open>
  \<^verbatim>\<open>grouped\<close> is an object literal with five own keys, each an array.
\<close>

record Grouped =
  g_todo :: "Task list"
  g_in_progress :: "Task list"
  g_in_review :: "Task list"
  g_completed :: "Task list"
  g_done :: "Task list"

definition emptyGrouped :: Grouped where
  "emptyGrouped =
     \<lparr>g_todo = [], g_in_progress = [], g_in_review = [], g_completed = [], g_done = []\<rparr>"

text \<open>What \<^verbatim>\<open>grouped[key]\<close> evaluates to.\<close>

datatype slot = OwnArray "Task list" | Inherited | Undefined

definition groupedGet :: "Grouped \<Rightarrow> string \<Rightarrow> slot" where
  "groupedGet g k =
     (if k = ''todo'' then OwnArray (g_todo g)
      else if k = ''in_progress'' then OwnArray (g_in_progress g)
      else if k = ''in_review'' then OwnArray (g_in_review g)
      else if k = ''completed'' then OwnArray (g_completed g)
      else if k = ''done'' then OwnArray (g_done g)
      else if k \<in> set protoKeys then Inherited
      else Undefined)"

text \<open>\<^verbatim>\<open>grouped[key].push(task)\<close> for an own key.\<close>

definition groupedPush :: "Grouped \<Rightarrow> string \<Rightarrow> Task \<Rightarrow> Grouped" where
  "groupedPush g k task =
     (if k = ''todo'' then g\<lparr>g_todo := g_todo g @ [task]\<rparr>
      else if k = ''in_progress'' then g\<lparr>g_in_progress := g_in_progress g @ [task]\<rparr>
      else if k = ''in_review'' then g\<lparr>g_in_review := g_in_review g @ [task]\<rparr>
      else if k = ''completed'' then g\<lparr>g_completed := g_completed g @ [task]\<rparr>
      else if k = ''done'' then g\<lparr>g_done := g_done g @ [task]\<rparr>
      else g)"

text \<open>
  The body of the \<^verbatim>\<open>forEach\<close>. An array, even an empty one, is truthy, so the first
  branch is taken for each of the five own keys; an inherited property is truthy too, and
  calling its missing \<^verbatim>\<open>push\<close> throws. Only an undefined slot reaches the fallback
  that tests for \<^verbatim>\<open>'done'\<close>.
\<close>

definition groupTask :: "Grouped \<Rightarrow> Task \<Rightarrow> js_error + Grouped" where
  "groupTask g task =
     (case groupedGet g (status task) of
        OwnArray _ \<Rightarrow> Inr (groupedPush g (status task) task)
      | Inherited \<Rightarrow> Inl TypeError
      | Undefined \<Rightarrow>
          (if status task = ''done'' then Inr (groupedPush g ''completed'' task) else Inr g))"

fun groupTasks :: "Grouped \<Rightarrow> Task list \<Rightarrow> js_error + Grouped" where
  "groupTasks g [] = Inr g"
| "groupTasks g (task # rest) =
     (case groupTask g task of Inl e \<Rightarrow> Inl e | Inr g' \<Rightarrow> groupTasks g' rest)"

definition tasksByStatus :: "Task list \<Rightarrow> js_error + Grouped" where
  "tasksByStatus localTasks = groupTasks emptyGrouped localTasks"

text \<open>
  The board renders one column per entry of \<^verbatim>\<open>columns\<close> and hands it
  \<^verbatim>\<open>tasksByStatus[col.id] || []\<close>.
\<close>

definition columnTasks :: "Grouped \<Rightarrow> TaskStatus \<Rightarrow> Task list" where
  "columnTasks g col = (case groupedGet g col of OwnArray ts \<Rightarrow> ts | _ \<Rightarrow> [])"

subsection \<open>Drag and drop handlers\<close>

text \<open>
  The component state: the dragged id, the optimistic local copy, and the calls made to
  the injected \<^verbatim>\<open>onStatusChange\<close> callback so far (oldest first). The props
  \<^verbatim>\<open>tasks\<close> and \<^verbatim>\<open>isAdmin\<close> are parameters of the handlers.
\<close>

record Board =
  activeId :: "string option"
  localTasks :: "Task list"
  commits :: "(string \<times> TaskStatus) list"

definition initBoard :: "Task list \<Rightarrow> Board" where
  "initBoard tasks = \<lparr>activeId = None, localTasks = tasks, commits = []\<rparr>"

definition handleDragStart :: "Board \<Rightarrow> string \<Rightarrow> Board" where
  "handleDragStart s a = s\<lparr>activeId := Some a\<rparr>"

definition findContainer :: "Task list \<Rightarrow> string \<Rightarrow> TaskStatus option" where
  "findContainer ts i =
     (if i \<in> set columns then Some i
      else case find (\<lambda>t. task_id t = i) ts of
             Some task \<Rightarrow> if status task = ''done'' then Some ''completed'' else Some (status task)
           | None \<Rightarrow> None)"

text \<open>\<^verbatim>\<open>!container\<close>: \<^verbatim>\<open>null\<close> and the empty string are falsy.\<close>

definition falsy :: "TaskStatus option \<Rightarrow> bool" where
  "falsy c = (case c of None \<Rightarrow> True | Some str \<Rightarrow> str = [])"

fun findIndex :: "('a \<Rightarrow> bool) \<Rightarrow> 'a list \<Rightarrow> nat option" where
  "findIndex P [] = None"
| "findIndex P (x # xs) = (if P x then Some 0 else map_option Suc (findIndex P xs))"

text \<open>The updater passed to \<^verbatim>\<open>setLocalTasks\<close> in \<^verbatim>\<open>handleDragOver\<close>.\<close>

definition moveTask :: "string \<Rightarrow> TaskStatus \<Rightarrow> Task list \<Rightarrow> Task list" where
  "moveTask a overContainer prevTasks =
     (case findIndex (\<lambda>t. task_id t = a) prevTasks of
        None \<Rightarrow> prevTasks
      | Some activeIndex \<Rightarrow>
          prevTasks[activeIndex := (prevTasks ! activeIndex)\<lparr>status := overContainer\<rparr>])"

definition handleDragOver :: "bool \<Rightarrow> Board \<Rightarrow> string \<Rightarrow> string option \<Rightarrow> Board" where
  "handleDragOver isAdmin s a over =
     (case over of
        None \<Rightarrow> s
      | Some overId \<Rightarrow>
          (let activeContainer = findContainer (localTasks s) a;
               overContainer = findContainer (localTasks s) overId
           in if falsy activeContainer \<or> falsy overContainer \<or> activeContainer = overContainer
              then s
              else if activeContainer = Some ''completed'' then s
              else if \<not> isAdmin \<and> overContainer = Some ''completed'' then s
              else s\<lparr>localTasks := moveTask a (the overContainer) (localTasks s)\<rparr>))"

definition handleDragEnd :: "bool \<Rightarrow> Task list \<Rightarrow> Board \<Rightarrow> string \<Rightarrow> string option \<Rightarrow> Board" where
  "handleDragEnd isAdmin tasks s a over =
     (let s1 = s\<lparr>activeId := None\<rparr> in
      case over of
        None \<Rightarrow> s1\<lparr>localTasks := tasks\<rparr>
      | Some overId \<Rightarrow>
          (let activeContainer = findContainer (localTasks s) a;
               overContainer = findContainer (localTasks s) overId
           in if \<not> falsy activeContainer \<and> \<not> falsy overContainer then
                if activeContainer = Some ''completed'' \<and> overContainer \<noteq> Some ''completed''
                then s1\<lparr>localTasks := tasks\<rparr>
                else if \<not> isAdmin \<and> overContainer = Some ''completed''
                then s1\<lparr>localTasks := tasks\<rparr>
                else (case (find (\<lambda>t. task_id t = a) (localTasks s),
                            find (\<lambda>t. task_id t = a) tasks) of
                        (Some finalTask, Some originalTask) \<Rightarrow>
                          if status finalTask \<noteq> status originalTask
                          then s1\<lparr>commits := commits s1 @ [(a, status finalTask)]\<rparr>
                          else s1
                      | _ \<Rightarrow> s1)
              else s1))"

text \<open>
  The events the drag-and-drop context delivers, and the board reacting to a sequence of
  them while the props stay the same.
\<close>

datatype DragEvent =
  DragStart string
| DragOver string "string option"
| DragEnd string "string option"

fun step :: "bool \<Rightarrow> Task list \<Rightarrow> Board \<Rightarrow> DragEvent \<Rightarrow> Board" where
  "step isAdmin tasks s (DragStart a) = handleDragStart s a"
| "step isAdmin tasks s (DragOver a over) = handleDragOver isAdmin s a over"
| "step isAdmin tasks s (DragEnd a over) = handleDragEnd isAdmin tasks s a over"

definition run :: "bool \<Rightarrow> Task list \<Rightarrow> DragEvent list \<Rightarrow> Board" where
  "run isAdmin tasks es = foldl (step isAdmin tasks) (initBoard tasks) es"

text \<open>
  One drag gesture on the task \<open>a\<close> up to (not including) the drop: the drag
  starts and the pointer passes over the targets \<open>overs\<close> in turn.
\<close>

definition dragEvents :: "string \<Rightarrow> string option list \<Rightarrow> DragEvent list" where
  "dragEvents a overs = DragStart a # map (DragOver a) overs"

text \<open>
  The shape of the local copy during one gesture on the task \<open>a\<close> that started from the
  synchronised board: it is the external list, or the external list with the status of
  the first task of id \<open>a\<close> replaced by a non-empty column name.
\<close>

definition dragged :: "Task list \<Rightarrow> string \<Rightarrow> Task list \<Rightarrow> bool" where
  "dragged T a L \<longleftrightarrow>
     L = T \<or> (\<exists>i c. findIndex (\<lambda>t. task_id t = a) T = Some i \<and> c \<noteq> [] \<and>
                 L = T[i := (T ! i)\<lparr>status := c\<rparr>])"

subsection \<open>A sample task\<close>

definition exTask :: "string \<Rightarrow> TaskStatus \<Rightarrow> Task" where
  "exTask i st =
     \<lparr>task_id = i, task_name = ''Write report'', assigned_user_id = ''u1'', status = st,
      start_time = None, finish_time = None, deadline = DateAt 0, pending_approval = False\<rparr>"

section \<open>Performance scoring (src/lib/performance.ts)\<close>

subsection \<open>JavaScript numbers\<close>

text \<open>
  A JavaScript number is an IEEE-754 binary64 value. A finite one is modelled by the
  rational it denotes (the sign of zero is not kept: nothing in this module observes it).
  Every arithmetic operation computes the exact result and rounds it to the nearest value
  with a 53-bit significand, ties to even: \<open>fl\<close>. The exponent is not bounded in the
  model. That agrees with binary64 wherever the magnitude of a non-zero result lies
  between \<open>2 powi (-1022)\<close> and \<open>2 powi 1024\<close>, which holds for every number this module
  computes from task counts (array lengths) and \<^verbatim>\<open>Date\<close> time values (integers of
  magnitude at most \<open>8.64 * 10 ^ 15\<close>).
\<close>

text \<open>\<open>flog2 x\<close> is the integer \<open>e\<close> with \<open>2 powi e \<le> x < 2 powi (e + 1)\<close>, for \<open>x > 0\<close>.\<close>

definition flog2 :: "rat \<Rightarrow> int" where
  "flog2 x =
     (let (p, q) = quotient_of x; e = bitlen p - bitlen q
      in if 2 powi e \<le> x then e else e - 1)"

text \<open>Rounding to the nearest integer, ties to the even one.\<close>

definition rne :: "rat \<Rightarrow> int" where
  "rne x =
     (let n = \<lfloor>x\<rfloor>; d = x - of_int n
      in if d < 1 / 2 then n else if 1 / 2 < d then n + 1 else if even n then n else n + 1)"

definition fl :: "rat \<Rightarrow> rat" where
  "fl x =
     (if x = 0 then 0
      else let u = 2 powi (flog2 \<bar>x\<bar> - 52) in of_int (rne (x / u)) * u)"

text \<open>
  \<^verbatim>\<open>parseFloat(x.toFixed(1))\<close> for a finite \<open>x\<close>. \<^verbatim>\<open>toFixed\<close> works on the magnitude:
  it picks the integer \<open>n\<close> for which \<open>n / 10\<close> is closest to the exact value of the
  number, the larger \<open>n\<close> on a tie, and prints \<open>n\<close> with one decimal and the sign; from
  \<open>10 ^ 21\<close> on it prints the number itself. \<^verbatim>\<open>parseFloat\<close> reads the decimal back as
  the nearest number.
\<close>

definition toFixed1 :: "rat \<Rightarrow> rat" where
  "toFixed1 x =
     (if 10 ^ 21 \<le> \<bar>x\<bar> then x
      else if x < 0 then - fl (of_int \<lfloor>- x * 10 + 1 / 2\<rfloor> / 10)
      else fl (of_int \<lfloor>x * 10 + 1 / 2\<rfloor> / 10))"

text \<open>
  Numbers that may be NaN: the time value of an invalid date and what is computed from
  it. NaN is absorbing in arithmetic, and every comparison with it is false.
\<close>

datatype jsnum = NaN | Num rat

text \<open>
  The time value of a \<^verbatim>\<open>Date\<close>: an integer number of milliseconds of magnitude at
  most \<open>8.64 * 10 ^ 15\<close>; beyond that range the date is invalid, as for a string that
  does not parse.
\<close>

definition getTime :: "JSDate \<Rightarrow> jsnum" where
  "getTime d =
     (case d of
        InvalidDate \<Rightarrow> NaN
      | DateAt ms \<Rightarrow> if \<bar>ms\<bar> \<le> 8640000000000000 then Num (of_int ms) else NaN)"

fun numSub :: "jsnum \<Rightarrow> jsnum \<Rightarrow> jsnum" where
  "numSub (Num a) (Num b) = Num (fl (a - b))"
| "numSub _ _ = NaN"

fun numAdd :: "jsnum \<Rightarrow> jsnum \<Rightarrow> jsnum" where
  "numAdd (Num a) (Num b) = Num (fl (a + b))"
| "numAdd _ _ = NaN"

fun numDiv :: "jsnum \<Rightarrow> rat \<Rightarrow> jsnum" where
  "numDiv (Num a) b = Num (fl (a / b))"
| "numDiv NaN b = NaN"

fun numToFixed1 :: "jsnum \<Rightarrow> jsnum" where
  "numToFixed1 (Num a) = Num (toFixed1 a)"
| "numToFixed1 NaN = NaN"

text \<open>Relational operators on \<^verbatim>\<open>Date\<close> objects compare the time values.\<close>

definition dateLess :: "JSDate \<Rightarrow> JSDate \<Rightarrow> bool" where
  "dateLess a b = (case (getTime a, getTime b) of (Num x, Num y) \<Rightarrow> x < y | _ \<Rightarrow> False)"

definition dateLessEq :: "JSDate \<Rightarrow> JSDate \<Rightarrow> bool" where
  "dateLessEq a b = (case (getTime a, getTime b) of (Num x, Num y) \<Rightarrow> x \<le> y | _ \<Rightarrow> False)"

subsection \<open>Grouping the tasks by user\<close>

text \<open>
  \<^verbatim>\<open>tasksByUser\<close> is an object used as a dictionary; the association list keeps the
  keys in the order of their creation. For a user id that names a property inherited from
  \<^verbatim>\<open>Object.prototype\<close>, \<^verbatim>\<open>acc[userId]\<close> is truthy, no array is stored, and
  \<^verbatim>\<open>acc[userId].push\<close> is not a function: the reducer throws.
\<close>

fun pushTask :: "(string \<times> Task list) list \<Rightarrow> string \<Rightarrow> Task \<Rightarrow> (string \<times> Task list) list" where
  "pushTask [] userId task = [(userId, [task])]"
| "pushTask ((k, ts) # acc) userId task =
     (if k = userId then (k, ts @ [task]) # acc else (k, ts) # pushTask acc userId task)"

fun groupByUser :: "(string \<times> Task list) list \<Rightarrow> Task list \<Rightarrow> js_error + (string \<times> Task list) list" where
  "groupByUser acc [] = Inr acc"
| "groupByUser acc (task # rest) =
     (let userId = assigned_user_id task
      in if userId \<in> set protoKeys then Inl TypeError
         else groupByUser (pushTask acc userId task) rest)"

definition tasksByUser :: "Task list \<Rightarrow> js_error + (string \<times> Task list) list" where
  "tasksByUser tasks = groupByUser [] tasks"

text \<open>
  \<^verbatim>\<open>Object.entries\<close> lists the keys that are array indices first, in ascending numeric
  order, and then the other keys in the order of their creation. An array index is the
  canonical decimal string of an integer below \<open>2 ^ 32 - 1\<close>.
\<close>

definition isDigit :: "char \<Rightarrow> bool" where
  "isDigit c = (48 \<le> (of_char c :: int) \<and> (of_char c :: int) \<le> 57)"

definition digitsValue :: "string \<Rightarrow> int" where
  "digitsValue str = foldl (\<lambda>n c. 10 * n + ((of_char c :: int) - 48)) 0 str"

definition isArrayIndex :: "string \<Rightarrow> bool" where
  "isArrayIndex str =
     (str \<noteq> [] \<and> list_all isDigit str \<and> (str = ''0'' \<or> hd str \<noteq> CHR ''0'') \<and>
      digitsValue str < 4294967295)"

definition objectEntries :: "(string \<times> 'v) list \<Rightarrow> (string \<times> 'v) list" where
  "objectEntries kvs =
     sort_key (\<lambda>kv. digitsValue (fst kv)) (filter (\<lambda>kv. isArrayIndex (fst kv)) kvs) @
     filter (\<lambda>kv. \<not> isArrayIndex (fst kv)) kvs"

subsection \<open>The metrics of one employee\<close>

datatype Rating = excellent | good | average | needs_improvement

record EmployeePerformance =
  emp_id :: string
  emp_name :: string
  emp_avatar_url :: "string option"
  totalTasks :: int
  completedTasks :: int
  overdueTasks :: int
  cancelledTasks :: int
  efficiency :: rat
  avgCompletionTime :: jsnum
  completionRate :: rat
  punctualityRate :: rat
  performanceScore :: rat
  performanceRating :: Rating

definition countWhere :: "(Task \<Rightarrow> bool) \<Rightarrow> Task list \<Rightarrow> int" where
  "countWhere P userTasks = int (length (filter P userTasks))"

definition totalTasksOf :: "Task list \<Rightarrow> int" where
  "totalTasksOf userTasks = int (length userTasks)"

definition completedTasksOf :: "Task list \<Rightarrow> int" where
  "completedTasksOf userTasks = countWhere (\<lambda>task. status task = ''completed'') userTasks"

definition inProgressTasksOf :: "Task list \<Rightarrow> int" where
  "inProgressTasksOf userTasks = countWhere (\<lambda>task. status task = ''in_progress'') userTasks"

definition todoTasksOf :: "Task list \<Rightarrow> int" where
  "todoTasksOf userTasks = countWhere (\<lambda>task. status task = ''todo'') userTasks"

definition reviewTasksOf :: "Task list \<Rightarrow> int" where
  "reviewTasksOf userTasks =
     countWhere (\<lambda>task. status task = ''in_review'' \<or> status task = ''done'') userTasks"

definition cancelledTasksOf :: "Task list \<Rightarrow> int" where
  "cancelledTasksOf userTasks =
     totalTasksOf userTasks -
       (completedTasksOf userTasks + inProgressTasksOf userTasks + todoTasksOf userTasks +
        reviewTasksOf userTasks)"

text \<open>\<^verbatim>\<open>n || 0\<close> on a number that is not NaN.\<close>

definition orZero :: "int \<Rightarrow> int" where
  "orZero n = (if n = 0 then 0 else n)"

text \<open>
  The callback of the \<^verbatim>\<open>overdueTasks\<close> filter. For a task that is not completed it
  evaluates \<^verbatim>\<open>new Date()\<close>, which reads the system clock. The clock is the function
  \<open>clock\<close> from the number of readings taken so far in this run to the time value
  read; the filter threads the number of readings.
\<close>

definition finishedLate :: "Task \<Rightarrow> bool" where
  "finishedLate task =
     (case finish_time task of
        None \<Rightarrow> False
      | Some finish \<Rightarrow> dateLess (deadline task) finish)"

fun overdueFilter :: "(nat \<Rightarrow> int) \<Rightarrow> nat \<Rightarrow> Task list \<Rightarrow> Task list \<times> nat" where
  "overdueFilter clock k [] = ([], k)"
| "overdueFilter clock k (task # rest) =
     (if status task = ''completed'' then
        (let (kept, k') = overdueFilter clock k rest
         in (if finishedLate task then task # kept else kept, k'))
      else
        (let now = DateAt (clock k);
             (kept, k') = overdueFilter clock (Suc k) rest
         in (if dateLess (deadline task) now \<and> status task \<noteq> ''completed''
             then task # kept else kept, k')))"

definition completedOnTime :: "Task \<Rightarrow> bool" where
  "completedOnTime task =
     (status task = ''completed'' \<and>
      (case finish_time task of
         None \<Rightarrow> False
       | Some finish \<Rightarrow> dateLessEq finish (deadline task)))"

definition tasksCompletedOnTime :: "Task list \<Rightarrow> int" where
  "tasksCompletedOnTime userTasks = countWhere completedOnTime userTasks"

definition percentOf :: "int \<Rightarrow> int \<Rightarrow> rat" where
  "percentOf part whole = fl (fl (of_int part / of_int whole) * 100)"

definition efficiencyOf :: "Task list \<Rightarrow> rat" where
  "efficiencyOf userTasks =
     (if totalTasksOf userTasks > 0
      then percentOf (tasksCompletedOnTime userTasks) (totalTasksOf userTasks) else 0)"

definition completionRateOf :: "Task list \<Rightarrow> rat" where
  "completionRateOf userTasks =
     (if totalTasksOf userTasks > 0
      then percentOf (completedTasksOf userTasks) (totalTasksOf userTasks) else 0)"

definition punctualityRateOf :: "Task list \<Rightarrow> rat" where
  "punctualityRateOf userTasks =
     (if completedTasksOf userTasks > 0
      then percentOf (tasksCompletedOnTime userTasks) (completedTasksOf userTasks) else 0)"

text \<open>
  The \<^verbatim>\<open>forEach\<close> that accumulates \<^verbatim>\<open>totalCompletionTime\<close> and
  \<^verbatim>\<open>completionTimeCount\<close>.
\<close>

fun completionTimes :: "jsnum \<times> nat \<Rightarrow> Task list \<Rightarrow> jsnum \<times> nat" where
  "completionTimes acc [] = acc"
| "completionTimes (totalCompletionTime, completionTimeCount) (task # rest) =
     (case (start_time task, finish_time task) of
        (Some start, Some finish) \<Rightarrow>
          (let startTime = getTime start;
               finishTime = getTime finish;
               durationHours = numDiv (numSub finishTime startTime) (1000 * 60 * 60)
           in completionTimes
                (numAdd totalCompletionTime durationHours, Suc completionTimeCount) rest)
      | _ \<Rightarrow> completionTimes (totalCompletionTime, completionTimeCount) rest)"

definition avgCompletionTimeOf :: "Task list \<Rightarrow> jsnum" where
  "avgCompletionTimeOf userTasks =
     (let (totalCompletionTime, completionTimeCount) = completionTimes (Num 0, 0) userTasks
      in if completionTimeCount > 0
         then numDiv totalCompletionTime (of_nat completionTimeCount) else Num 0)"

definition timeEfficiency :: "jsnum \<Rightarrow> rat" where
  "timeEfficiency avg =
     (case avg of
        Num a \<Rightarrow> if a > 0 then max 0 (fl (100 - fl (a * 5))) else 100
      | NaN \<Rightarrow> 100)"

definition cancellationRate :: "Task list \<Rightarrow> rat" where
  "cancellationRate userTasks =
     (if totalTasksOf userTasks > 0
      then percentOf (orZero (cancelledTasksOf userTasks)) (totalTasksOf userTasks) else 0)"

definition cancellationScore :: "Task list \<Rightarrow> rat" where
  "cancellationScore userTasks = fl (100 - cancellationRate userTasks)"

text \<open>
  The weighted sum, in the order in which the code adds the five terms to \<^verbatim>\<open>score\<close>.
  The literals \<^verbatim>\<open>0.3\<close>, \<^verbatim>\<open>0.25\<close>, \<^verbatim>\<open>0.2\<close>, \<^verbatim>\<open>0.15\<close> and \<^verbatim>\<open>0.1\<close> denote the
  nearest numbers.
\<close>

definition weightedScore :: "rat \<Rightarrow> rat \<Rightarrow> rat \<Rightarrow> rat \<Rightarrow> rat \<Rightarrow> rat" where
  "weightedScore cr pr eff te cs =
     (let score = 0;
          score = fl (score + fl (cr * fl (3 / 10)));
          score = fl (score + fl (pr * fl (25 / 100)));
          score = fl (score + fl (eff * fl (2 / 10)));
          score = fl (score + fl (te * fl (15 / 100)));
          score = fl (score + fl (max 0 cs * fl (1 / 10)))
      in score)"

definition scoreOf :: "Task list \<Rightarrow> rat" where
  "scoreOf userTasks =
     weightedScore (completionRateOf userTasks) (punctualityRateOf userTasks)
       (efficiencyOf userTasks) (timeEfficiency (avgCompletionTimeOf userTasks))
       (cancellationScore userTasks)"

definition ratingOf :: "rat \<Rightarrow> Rating" where
  "ratingOf score =
     (if score \<ge> 85 then excellent
      else if score \<ge> 70 then good
      else if score \<ge> 50 then average
      else needs_improvement)"

text \<open>\<^verbatim>\<open>profile.full_name || profile.email || 'Unknown User'\<close>\<close>

definition displayName :: "Profile \<Rightarrow> string" where
  "displayName profile =
     (case full_name profile of
        Some n \<Rightarrow> if n \<noteq> [] then n
                  else if email profile \<noteq> [] then email profile else ''Unknown User''
      | None \<Rightarrow> if email profile \<noteq> [] then email profile else ''Unknown User'')"

text \<open>The body of the loop for one user with a profile: the record pushed, and the clock readings used.\<close>

definition employeeRecord ::
  "(nat \<Rightarrow> int) \<Rightarrow> nat \<Rightarrow> string \<Rightarrow> Profile \<Rightarrow> Task list \<Rightarrow> EmployeePerformance \<times> nat" where
  "employeeRecord clock k userId profile userTasks =
     (let (overdue, k') = overdueFilter clock k userTasks;
          score = scoreOf userTasks
      in (\<lparr>emp_id = userId,
           emp_name = displayName profile,
           emp_avatar_url = avatar_url profile,
           totalTasks = totalTasksOf userTasks,
           completedTasks = completedTasksOf userTasks,
           overdueTasks = int (length overdue),
           cancelledTasks = orZero (cancelledTasksOf userTasks),
           efficiency = toFixed1 (efficiencyOf userTasks),
           avgCompletionTime = numToFixed1 (avgCompletionTimeOf userTasks),
           completionRate = toFixed1 (completionRateOf userTasks),
           punctualityRate = toFixed1 (punctualityRateOf userTasks),
           performanceScore = toFixed1 score,
           performanceRating = ratingOf score\<rparr>, k'))"

fun buildPerformance ::
  "(nat \<Rightarrow> int) \<Rightarrow> nat \<Rightarrow> Profile list \<Rightarrow> (string \<times> Task list) list \<Rightarrow>
     EmployeePerformance list \<times> nat" where
  "buildPerformance clock k profiles [] = ([], k)"
| "buildPerformance clock k profiles ((userId, userTasks) # rest) =
     (case find (\<lambda>p. profile_id p = userId) profiles of
        None \<Rightarrow> buildPerformance clock k profiles rest
      | Some profile \<Rightarrow>
          (let (r, k') = employeeRecord clock k userId profile userTasks;
               (rs, k'') = buildPerformance clock k' profiles rest
           in (r # rs, k'')))"

text \<open>
  \<^verbatim>\<open>performanceData\<close> as it stands before the final sort.
\<close>

definition performanceData ::
  "(nat \<Rightarrow> int) \<Rightarrow> Task list \<Rightarrow> Profile list \<Rightarrow> js_error + EmployeePerformance list" where
  "performanceData clock tasks profiles =
     (case tasksByUser tasks of
        Inl e \<Rightarrow> Inl e
      | Inr byUser \<Rightarrow> Inr (fst (buildPerformance clock 0 profiles (objectEntries byUser))))"

subsection \<open>The final sort\<close>

text \<open>
  \<^verbatim>\<open>performanceData.sort((a, b) => b.performanceScore - a.performanceScore)\<close>.
  \<^verbatim>\<open>Array.prototype.sort\<close> is a stable sort (ECMAScript 2019); with a comparator that
  is a consistent ordering, as this one is on finite scores, its result is the one of
  the stable insertion sort below, whatever algorithm the engine runs
  (\<open>sortByScore_unique\<close>).
\<close>

definition compareFn :: "EmployeePerformance \<Rightarrow> EmployeePerformance \<Rightarrow> rat" where
  "compareFn a b = fl (performanceScore b - performanceScore a)"

fun insertByScore :: "EmployeePerformance \<Rightarrow> EmployeePerformance list \<Rightarrow> EmployeePerformance list" where
  "insertByScore x [] = [x]"
| "insertByScore x (y # ys) =
     (if compareFn x y \<le> 0 then x # y # ys else y # insertByScore x ys)"

definition sortByScore :: "EmployeePerformance list \<Rightarrow> EmployeePerformance list" where
  "sortByScore rs = foldr insertByScore rs []"

definition calculateEmployeePerformance ::
  "(nat \<Rightarrow> int) \<Rightarrow> Task list \<Rightarrow> Profile list \<Rightarrow> js_error + EmployeePerformance list" where
  "calculateEmployeePerformance clock tasks profiles =
     (case performanceData clock tasks profiles of
        Inl e \<Rightarrow> Inl e
      | Inr rs \<Rightarrow> Inr (sortByScore rs))"

subsection \<open>Auxiliary notions for the proofs\<close>

text \<open>
  What the dictionary holds after the reducer has seen the tasks \<open>seen\<close>: one entry for
  each user with a task, holding that user's tasks in their order, and nothing else.
\<close>

definition grouped_of :: "Task list \<Rightarrow> (string \<times> Task list) list \<Rightarrow> bool" where
  "grouped_of seen acc \<longleftrightarrow>
     distinct (map fst acc) \<and>
     (\<forall>u. map_of acc u =
        (if filter (\<lambda>t. assigned_user_id t = u) seen = [] then None
         else Some (filter (\<lambda>t. assigned_user_id t = u) seen))) \<and>
     sum_list (map (\<lambda>kv. length (snd kv)) acc) = length seen"

text \<open>A record with its \<^verbatim>\<open>overdueTasks\<close> counter blanked.\<close>

definition eraseOverdue :: "EmployeePerformance \<Rightarrow> EmployeePerformance" where
  "eraseOverdue r = r\<lparr>overdueTasks := 0\<rparr>"

text \<open>
  A task that is not completed: the overdue test compares its deadline with the clock.
\<close>

definition openTask :: "Task \<Rightarrow> bool" where
  "openTask task \<longleftrightarrow> status task \<noteq> ''completed''"

text \<open>
  A task for which the clock is consulted: it is not completed and its assigned user has a
  profile, so that the loop over the users does not skip it.
\<close>

definition takesReading :: "Profile list \<Rightarrow> Task \<Rightarrow> bool" where
  "takesReading profiles task \<longleftrightarrow>
     openTask task \<and> find (\<lambda>p. profile_id p = assigned_user_id task) profiles \<noteq> None"

definition clockReadings :: "Profile list \<Rightarrow> Task list \<Rightarrow> nat" where
  "clockReadings profiles tasks = length (filter (takesReading profiles) tasks)"

text \<open>
  The number of clock readings of a run: the index of the next reading when the loop over
  the users ends, and none when the grouping throws, which happens before the loop.
\<close>

definition readingsTaken :: "(nat \<Rightarrow> int) \<Rightarrow> Task list \<Rightarrow> Profile list \<Rightarrow> nat" where
  "readingsTaken clock tasks profiles =
     (case tasksByUser tasks of
        Inl e \<Rightarrow> 0
      | Inr byUser \<Rightarrow> snd (buildPerformance clock 0 profiles (objectEntries byUser)))"

text \<open>The readings taken for one entry of the dictionary.\<close>

definition entryReads :: "Profile list \<Rightarrow> string \<times> Task list \<Rightarrow> nat" where
  "entryReads profiles kv =
     (if find (\<lambda>p. profile_id p = fst kv) profiles = None then 0
      else length (filter openTask (snd kv)))"
subsection \<open>Sample tasks and profiles\<close>

definition userTask ::
  "string \<Rightarrow> string \<Rightarrow> TaskStatus \<Rightarrow> int option \<Rightarrow> int option \<Rightarrow> int \<Rightarrow> Task" where
  "userTask i u st started finished due =
     \<lparr>task_id = i, task_name = ''Write report'', assigned_user_id = u, status = st,
      start_time = map_option DateAt started, finish_time = map_option DateAt finished,
      deadline = DateAt due, pending_approval = False\<rparr>"

definition sampleProfile :: "string \<Rightarrow> Profile" where
  "sampleProfile u =
     \<lparr>profile_id = u, email = ''member@example.org'', full_name = None, avatar_url = None,
      is_approved = True\<rparr>"

text \<open>
  A team of three with profiles and one user without: \<^verbatim>\<open>u1\<close> has a task finished
  in time, one finished late, an open one, one of the unrecognised status
  \<^verbatim>\<open>cancelled\<close> and one of status \<^verbatim>\<open>done\<close>; \<^verbatim>\<open>u2\<close> has a completed task with no
  finish time and an open one past its deadline; the user whose id is \<^verbatim>\<open>7\<close> has one
  task finished in time.
\<close>

definition sampleTasks :: "Task list" where
  "sampleTasks =
     [userTask ''a'' ''u1'' ''completed'' (Some 0) (Some 5) 10,
      userTask ''b'' ''u2'' ''completed'' None None 10,
      userTask ''c'' ''u1'' ''completed'' None (Some 20) 10,
      userTask ''d'' ''ghost'' ''todo'' None None 10,
      userTask ''e'' ''u1'' ''todo'' None None 100,
      userTask ''f'' ''7'' ''completed'' None (Some 5) 10,
      userTask ''g'' ''u1'' ''cancelled'' None None 100,
      userTask ''h'' ''u2'' ''in_progress'' None None 10,
      userTask ''i'' ''u1'' ''done'' None None 100]"

definition sampleProfiles :: "Profile list" where
  "sampleProfiles = [sampleProfile ''u1'', sampleProfile ''u2'', sampleProfile ''7'']"

text \<open>One user with three tasks, one of them completed in time.\<close>

definition thirdDone :: "Task list" where
  "thirdDone =
     [userTask ''a'' ''u1'' ''completed'' None (Some 5) 10,
      userTask ''b'' ''u1'' ''todo'' None None 100,
      userTask ''c'' ''u1'' ''todo'' None None 100]"

text \<open>
  One user with two completed tasks, one in time after 10.05 hours of work and one late.
\<close>

definition nearlyGood :: "Task list" where
  "nearlyGood =
     [userTask ''a'' ''u1'' ''completed'' (Some 0) (Some 36180000) 40000000,
      userTask ''b'' ''u1'' ''completed'' None (Some 200) 100]"

text \<open>The reports the code computes for the samples when every clock reading is 50.\<close>

definition sampleReport :: "EmployeePerformance list" where
  "sampleReport =
     [\<lparr>emp_id = ''7'', emp_name = ''member@example.org'', emp_avatar_url = None,
        totalTasks = 1, completedTasks = 1, overdueTasks = 0, cancelledTasks = 0,
        efficiency = 100, avgCompletionTime = Num 0, completionRate = 100,
        punctualityRate = 100, performanceScore = 100, performanceRating = excellent\<rparr>,
      \<lparr>emp_id = ''u1'', emp_name = ''member@example.org'', emp_avatar_url = None,
        totalTasks = 5, completedTasks = 2, overdueTasks = 1, cancelledTasks = 1,
        efficiency = 20, avgCompletionTime = Num 0, completionRate = 40,
        punctualityRate = 50, performanceScore = 103 / 2, performanceRating = average\<rparr>,
      \<lparr>emp_id = ''u2'', emp_name = ''member@example.org'', emp_avatar_url = None,
        totalTasks = 2, completedTasks = 1, overdueTasks = 1, cancelledTasks = 0,
        efficiency = 0, avgCompletionTime = Num 0, completionRate = 50,
        punctualityRate = 0, performanceScore = 40, performanceRating = needs_improvement\<rparr>]"

definition thirdDoneRecord :: EmployeePerformance where
  "thirdDoneRecord =
     \<lparr>emp_id = ''u1'', emp_name = ''member@example.org'', emp_avatar_url = None,
      totalTasks = 3, completedTasks = 1, overdueTasks = 0, cancelledTasks = 0,
      efficiency = 2343279181116211 / 70368744177664, avgCompletionTime = Num 0,
      completionRate = 2343279181116211 / 70368744177664, punctualityRate = 100,
      performanceScore = 4693595236650189 / 70368744177664, performanceRating = average\<rparr>"

definition nearlyGoodRecord :: EmployeePerformance where
  "nearlyGoodRecord =
     \<lparr>emp_id = ''u1'', emp_name = ''member@example.org'', emp_avatar_url = None,
      totalTasks = 2, completedTasks = 2, overdueTasks = 1, cancelledTasks = 0,
      efficiency = 50, avgCompletionTime = Num (5685794529555251 / 562949953421312),
      completionRate = 100, punctualityRate = 50, performanceScore = 70,
      performanceRating = average\<rparr>"

text \<open>
  Three employees with one task each: \<^verbatim>\<open>u2\<close> and \<^verbatim>\<open>u1\<close> completed theirs in
  time and score the same; the employee \<^verbatim>\<open>7\<close> has not started.
\<close>

definition tiedTasks :: "Task list" where
  "tiedTasks =
     [userTask ''a'' ''u2'' ''completed'' None (Some 5) 10,
      userTask ''b'' ''u1'' ''completed'' None (Some 7) 10,
      userTask ''c'' ''7'' ''todo'' None None 100]"

definition topRecord :: "string \<Rightarrow> EmployeePerformance" where
  "topRecord u =
     \<lparr>emp_id = u, emp_name = ''member@example.org'', emp_avatar_url = None,
      totalTasks = 1, completedTasks = 1, overdueTasks = 0, cancelledTasks = 0,
      efficiency = 100, avgCompletionTime = Num 0, completionRate = 100,
      punctualityRate = 100, performanceScore = 100, performanceRating = excellent\<rparr>"

definition idleRecord :: "string \<Rightarrow> EmployeePerformance" where
  "idleRecord u =
     \<lparr>emp_id = u, emp_name = ''member@example.org'', emp_avatar_url = None,
      totalTasks = 1, completedTasks = 0, overdueTasks = 0, cancelledTasks = 0,
      efficiency = 0, avgCompletionTime = Num 0, completionRate = 0,
      punctualityRate = 0, performanceScore = 25, performanceRating = needs_improvement\<rparr>"

section \<open>Properties of the kanban board\<close>

subsection \<open>Lists and the local copy\<close>

lemma find_findIndex: "find P xs = map_option (\<lambda>i. xs ! i) (findIndex P xs)"
  by (induction xs) (auto simp: option.map_comp comp_def)

lemma findIndex_lt: "findIndex P xs = Some i \<Longrightarrow> i < length xs"
  by (induction xs arbitrary: i) (auto split: if_splits)

lemma findIndex_map: "findIndex (\<lambda>t. f t = a) xs = findIndex (\<lambda>y. y = a) (map f xs)"
  by (induction xs) auto

lemma findIndex_same_ids:
  "map task_id L = map task_id T \<Longrightarrow>
   findIndex (\<lambda>t. task_id t = a) L = findIndex (\<lambda>t. task_id t = a) T"
  by (metis findIndex_map)

lemma findIndex_holds: "findIndex P xs = Some i \<Longrightarrow> P (xs ! i)"
  by (induction xs arbitrary: i) (auto split: if_splits)

lemma findIndex_None: "findIndex P xs = None \<longleftrightarrow> (\<forall>x\<in>set xs. \<not> P x)"
  by (induction xs) auto

lemma map_id_moveTask: "map task_id (moveTask a c L) = map task_id L"
  by (auto simp: moveTask_def map_update findIndex_lt list_update_same_conv split: option.splits)
    
lemma length_moveTask: "length (moveTask a c L) = length L"
  by (auto simp: moveTask_def split: option.splits)

lemma nth_moveTask:
  "i < length L \<Longrightarrow> moveTask a c L ! i =
     (if findIndex (\<lambda>t. task_id t = a) L = Some i then (L ! i)\<lparr>status := c\<rparr> else L ! i)"
  by (auto simp: moveTask_def nth_list_update split: option.splits)

lemma run_Nil: "run isAdmin tasks [] = initBoard tasks"
  by (simp add: run_def)

lemma run_snoc: "run isAdmin tasks (es @ [e]) = step isAdmin tasks (run isAdmin tasks es) e"
  by (simp add: run_def)

lemma run_append:
  "run isAdmin tasks (es @ es') = foldl (step isAdmin tasks) (run isAdmin tasks es) es'"
  by (simp add: run_def)

lemma localTasks_step_cases:
  "localTasks (step isAdmin tasks s e) = localTasks s \<or>
   localTasks (step isAdmin tasks s e) = tasks \<or>
   (\<exists>a over c. e = DragOver a (Some over) \<and>
        findContainer (localTasks s) over = Some c \<and> c \<noteq> [] \<and>
        \<not> falsy (findContainer (localTasks s) a) \<and>
        findContainer (localTasks s) a \<noteq> Some ''completed'' \<and>
        (isAdmin \<or> c \<noteq> ''completed'') \<and>
        localTasks (step isAdmin tasks s e) = moveTask a c (localTasks s))"
proof (cases e)
  case (DragStart a)
  then show ?thesis by (simp add: handleDragStart_def)
next
  case (DragOver a over)
  then show ?thesis
    by (cases over; cases "findContainer (localTasks s) (the over)")
       (auto simp: handleDragOver_def Let_def falsy_def)
next
  case (DragEnd a over)
  then show ?thesis
    by (auto simp: handleDragEnd_def Let_def split: option.splits)
qed


lemma run_ids: "map task_id (localTasks (run isAdmin tasks es)) = map task_id tasks"
proof (induction es rule: rev_induct)
  case Nil
  show ?case by (simp add: run_Nil initBoard_def)
next
  case (snoc e es)
  from localTasks_step_cases [of isAdmin tasks "run isAdmin tasks es" e] snoc
  show ?case by (auto simp: run_snoc map_id_moveTask)
qed

lemma run_length: "length (localTasks (run isAdmin tasks es)) = length tasks"
  using run_ids [of isAdmin tasks es] by (metis length_map)

lemma run_findIndex:
  "findIndex (\<lambda>t. task_id t = a) (localTasks (run isAdmin tasks es)) =
   findIndex (\<lambda>t. task_id t = a) tasks"
  by (rule findIndex_same_ids) (rule run_ids)

lemma run_truthy:
  "i < length tasks \<Longrightarrow>
   localTasks (run isAdmin tasks es) ! i = tasks ! i \<or>
   status (localTasks (run isAdmin tasks es) ! i) \<noteq> []"
proof (induction es rule: rev_induct)
  case Nil
  show ?case by (simp add: run_Nil initBoard_def)
next
  case (snoc e es)
  let ?L = "localTasks (run isAdmin tasks es)"
  let ?L' = "localTasks (step isAdmin tasks (run isAdmin tasks es) e)"
  have len: "i < length ?L"
    using snoc.prems by (simp add: run_length)
  consider (same) "?L' = ?L" | (reset) "?L' = tasks"
    | (move) a c where "c \<noteq> []" "?L' = moveTask a c ?L"
    using localTasks_step_cases [of isAdmin tasks "run isAdmin tasks es" e] by blast
  then show ?case
  proof cases
    case same
    with snoc show ?thesis by (simp add: run_snoc)
  next
    case reset
    then show ?thesis by (simp add: run_snoc)
  next
    case move
    with snoc len show ?thesis by (cases "findIndex (\<lambda>t. task_id t = a) ?L = Some i") (simp_all add: run_snoc nth_moveTask)
  qed
qed

lemma findContainer_at:
  assumes "findIndex (\<lambda>t. task_id t = a) L = Some i" and "a \<notin> set columns"
  shows "findContainer L a =
           (if status (L ! i) = ''done'' then Some ''completed'' else Some (status (L ! i)))"
  using assms by (simp add: findContainer_def find_findIndex)

lemma run_completed_fixed:
  assumes "i < length tasks"
    and "status (tasks ! i) = ''completed'' \<or> status (tasks ! i) = ''done''"
    and "task_id (tasks ! i) \<notin> set columns"
  shows "localTasks (run isAdmin tasks es) ! i = tasks ! i"
proof (induction es rule: rev_induct)
  case Nil
  show ?case by (simp add: run_Nil initBoard_def)
next
  case (snoc e es)
  let ?L = "localTasks (run isAdmin tasks es)"
  have len: "i < length ?L" using assms(1) by (simp add: run_length)
  have stuck: "findContainer ?L a = Some ''completed''"
    if "findIndex (\<lambda>t. task_id t = a) ?L = Some i" for a
  proof -
    from that have "task_id (?L ! i) = a" by (rule findIndex_holds)
    with snoc assms(3) have "a \<notin> set columns" by simp
    with that snoc assms(2) show ?thesis by (auto simp: findContainer_at)
  qed
  let ?L' = "localTasks (step isAdmin tasks (run isAdmin tasks es) e)"
  consider (same) "?L' = ?L" | (reset) "?L' = tasks"
    | (move) a c where "findContainer ?L a \<noteq> Some ''completed''" "?L' = moveTask a c ?L"
    using localTasks_step_cases [of isAdmin tasks "run isAdmin tasks es" e] by blast
  then show ?case
  proof cases
    case same
    with snoc show ?thesis by (simp add: run_snoc)
  next
    case reset
    then show ?thesis by (simp add: run_snoc)
  next
    case move
    from move(1) stuck have "findIndex (\<lambda>t. task_id t = a) ?L \<noteq> Some i" by blast
    with move(2) len snoc show ?thesis by (simp add: run_snoc nth_moveTask)
  qed
qed

subsection \<open>Completed tasks and refused drops\<close>

lemma commits_step_cases:
  "commits (step isAdmin tasks s e) = commits s \<or>
   (\<exists>a over f orig. e = DragEnd a over \<and>
      find (\<lambda>t. task_id t = a) (localTasks s) = Some f \<and>
      find (\<lambda>t. task_id t = a) tasks = Some orig \<and>
      status f \<noteq> status orig \<and>
      commits (step isAdmin tasks s e) = commits s @ [(a, status f)])"
proof (cases e)
  case (DragStart a)
  then show ?thesis by (simp add: handleDragStart_def)
next
  case (DragOver a over)
  then show ?thesis by (simp add: handleDragOver_def Let_def split: option.splits)
next
  case (DragEnd a over)
  then show ?thesis
    by (auto simp: handleDragEnd_def Let_def split: option.splits)
qed

lemma run_find_completed:
  assumes "find (\<lambda>t. task_id t = a) tasks = Some x"
    and "status x = ''completed'' \<or> status x = ''done''"
    and "a \<notin> set columns"
  shows "find (\<lambda>t. task_id t = a) (localTasks (run isAdmin tasks es)) = Some x"
proof -
  from assms(1) obtain i where i: "findIndex (\<lambda>t. task_id t = a) tasks = Some i" "tasks ! i = x"
    by (auto simp: find_findIndex)
  then have "i < length tasks" "task_id (tasks ! i) = a"
    by (auto dest: findIndex_lt findIndex_holds)
  with assms(2,3) i(2) have "localTasks (run isAdmin tasks es) ! i = tasks ! i"
    by (intro run_completed_fixed) auto
  with i show ?thesis by (simp add: find_findIndex run_findIndex)
qed

lemma run_no_commit_completed:
  assumes "find (\<lambda>t. task_id t = a) tasks = Some x"
    and "status x = ''completed'' \<or> status x = ''done''"
    and "a \<notin> set columns"
  shows "(a, st) \<notin> set (commits (run isAdmin tasks es))"
proof (induction es rule: rev_induct)
  case Nil
  show ?case by (simp add: run_Nil initBoard_def)
next
  case (snoc e es)
  from run_find_completed [OF assms, of isAdmin es] assms(1)
    commits_step_cases [of isAdmin tasks "run isAdmin tasks es" e] snoc
  show ?case by (auto simp: run_snoc)
qed

text \<open>
  Claim C3. A task whose status in the external task list is \<^verbatim>\<open>completed\<close> or the
  legacy \<^verbatim>\<open>done\<close> resolves to the completed column and is never changed by any
  sequence of drag-start, drag-over and drag-end events, whatever the targets and whether
  or not the actor is an admin; no commit is ever issued for it. Tasks are identified the
  way the handlers identify them, by \<^verbatim>\<open>find(t => t.id === id)\<close>. The task's id is
  assumed not to be one of the four column ids: task ids are database UUIDs, and the
  drag-and-drop context uses one id space for columns and cards.
\<close>

theorem completed_task_is_terminal:
  assumes "find (\<lambda>t. task_id t = a) tasks = Some x"
    and "status x = ''completed'' \<or> status x = ''done''"
    and "a \<notin> set columns"
  shows "find (\<lambda>t. task_id t = a) (localTasks (run isAdmin tasks es)) = Some x \<and>
         findContainer (localTasks (run isAdmin tasks es)) a = Some ''completed'' \<and>
         (\<forall>st. (a, st) \<notin> set (commits (run isAdmin tasks es)))"
proof -
  have f: "find (\<lambda>t. task_id t = a) (localTasks (run isAdmin tasks es)) = Some x"
    using assms by (rule run_find_completed)
  with assms(2,3) have "findContainer (localTasks (run isAdmin tasks es)) a = Some ''completed''"
    by (auto simp: findContainer_def)
  with f run_no_commit_completed [OF assms] show ?thesis by blast
qed

lemma commits_dragEvents:
  "commits (foldl (step isAdmin tasks) s (dragEvents a overs)) = commits s"
proof -
  have "commits (foldl (step isAdmin tasks) s' (map (DragOver a) overs)) = commits s'" for s'
    by (induction overs arbitrary: s')
       (simp_all add: handleDragOver_def Let_def split: option.splits)
  then show ?thesis by (simp add: dragEvents_def handleDragStart_def)
qed

lemma handleDragEnd_refused:
  assumes "findContainer (localTasks s) overId = Some ''completed''"
  shows "commits (handleDragEnd False tasks s a (Some overId)) = commits s \<and>
         localTasks (handleDragEnd False tasks s a (Some overId)) =
           (if falsy (findContainer (localTasks s) a) then localTasks s else tasks)"
  using assms by (simp add: handleDragEnd_def Let_def falsy_def)

lemma run_falsy_find:
  assumes "falsy (findContainer (localTasks (run isAdmin tasks es)) a)"
  shows "find (\<lambda>t. task_id t = a) (localTasks (run isAdmin tasks es)) =
         find (\<lambda>t. task_id t = a) tasks"
proof (cases "findIndex (\<lambda>t. task_id t = a) tasks")
  case None
  then show ?thesis by (simp add: find_findIndex run_findIndex)
next
  case (Some i)
  let ?L = "localTasks (run isAdmin tasks es)"
  from Some have i: "i < length tasks" by (rule findIndex_lt)
  from Some have fi: "findIndex (\<lambda>t. task_id t = a) ?L = Some i" by (simp add: run_findIndex)
  from assms have "a \<notin> set columns"
    by (auto simp: findContainer_def falsy_def columns_def split: if_splits)
  with fi assms have "status (?L ! i) = []"
    by (auto simp: findContainer_at falsy_def split: if_splits)
  with run_truthy [OF i, of isAdmin es] have "?L ! i = tasks ! i" by blast
  with Some fi show ?thesis by (simp add: find_findIndex)
qed

text \<open>
  Claim C2. The actor is not an admin. After any history \<open>es\<close> of events, take a
  gesture on the task \<open>a\<close> whose drop target resolves to the completed column. Then
  drag-over on that target leaves the board as it is, the whole gesture including the
  drop adds no call of the commit callback, and after the drop the task found under
  \<open>a\<close> in the local copy is the one found in the external list (so its status is the
  original external status).
\<close>

theorem non_admin_cannot_drop_on_completed:
  assumes "findContainer (localTasks (run False tasks (es @ dragEvents a overs))) overId
             = Some ''completed''"
  shows "let s = run False tasks (es @ dragEvents a overs);
             s' = run False tasks (es @ dragEvents a overs @ [DragEnd a (Some overId)])
         in handleDragOver False s a (Some overId) = s \<and>
            commits s' = commits (run False tasks es) \<and>
            find (\<lambda>t. task_id t = a) (localTasks s') = find (\<lambda>t. task_id t = a) tasks"
proof -
  let ?s = "run False tasks (es @ dragEvents a overs)"
  let ?s' = "run False tasks (es @ dragEvents a overs @ [DragEnd a (Some overId)])"
  have s': "?s' = handleDragEnd False tasks ?s a (Some overId)"
    using run_snoc [of False tasks "es @ dragEvents a overs"] by simp
  have 1: "handleDragOver False ?s a (Some overId) = ?s"
    using assms by (simp add: handleDragOver_def Let_def)
  have 2: "commits ?s' = commits (run False tasks es)"
    using handleDragEnd_refused [OF assms] by (simp add: s' run_append commits_dragEvents)
  have 3: "find (\<lambda>t. task_id t = a) (localTasks ?s') = find (\<lambda>t. task_id t = a) tasks"
    using handleDragEnd_refused [OF assms, of tasks a] run_falsy_find [of False tasks "es @ dragEvents a overs" a]
    by (simp add: s')
  from 1 2 3 show ?thesis by (simp add: Let_def)
qed

subsection \<open>One gesture from the synchronised board\<close>

lemma findIndex_restatus:
  assumes "i < length T"
  shows "findIndex (\<lambda>t. task_id t = a) (T[i := (T ! i)\<lparr>status := c\<rparr>]) =
         findIndex (\<lambda>t. task_id t = a) T"
proof (rule findIndex_same_ids)
  show "map task_id (T[i := (T ! i)\<lparr>status := c\<rparr>]) = map task_id T"
    using assms by (simp add: map_update list_update_same_conv)
qed

lemma moveTask_again:
  assumes "findIndex (\<lambda>t. task_id t = a) T = Some i"
  shows "moveTask a c' (T[i := (T ! i)\<lparr>status := c\<rparr>]) = T[i := (T ! i)\<lparr>status := c'\<rparr>]"
proof -
  from assms have i: "i < length T" by (rule findIndex_lt)
  have "findIndex (\<lambda>t. task_id t = a) (T[i := (T ! i)\<lparr>status := c\<rparr>]) = Some i"
    using assms i by (simp add: findIndex_restatus)
  with i show ?thesis by (simp add: moveTask_def)
qed

lemma moveTask_first:
  "moveTask a c T =
     (case findIndex (\<lambda>t. task_id t = a) T of None \<Rightarrow> T
      | Some i \<Rightarrow> T[i := (T ! i)\<lparr>status := c\<rparr>])"
  by (simp add: moveTask_def)

lemma dragged_handleDragOver:
  assumes "dragged T a (localTasks s)"
  shows "dragged T a (localTasks (handleDragOver isAdmin s a over))"
proof -
  consider (same) "localTasks (handleDragOver isAdmin s a over) = localTasks s"
    | (move) c where "c \<noteq> []"
        "localTasks (handleDragOver isAdmin s a over) = moveTask a c (localTasks s)"
    using localTasks_step_cases [of isAdmin "localTasks s" s "DragOver a over"] by auto
  then show ?thesis
  proof cases
    case same
    with assms show ?thesis by simp
  next
    case move
    from assms show ?thesis unfolding dragged_def
    proof (elim disjE exE conjE)
      assume "localTasks s = T"
      with move show "localTasks (handleDragOver isAdmin s a over) = T \<or>
        (\<exists>i c. findIndex (\<lambda>t. task_id t = a) T = Some i \<and> c \<noteq> [] \<and>
          localTasks (handleDragOver isAdmin s a over) = T[i := (T ! i)\<lparr>status := c\<rparr>])"
        by (cases "findIndex (\<lambda>t. task_id t = a) T") (auto simp: moveTask_first)
    next
      fix i c0
      assume "findIndex (\<lambda>t. task_id t = a) T = Some i" "localTasks s = T[i := (T ! i)\<lparr>status := c0\<rparr>]"
      with move show "localTasks (handleDragOver isAdmin s a over) = T \<or>
        (\<exists>i c. findIndex (\<lambda>t. task_id t = a) T = Some i \<and> c \<noteq> [] \<and>
          localTasks (handleDragOver isAdmin s a over) = T[i := (T ! i)\<lparr>status := c\<rparr>])"
        by (auto simp: moveTask_again)
    qed
  qed
qed

lemma dragged_dragOvers:
  "dragged tasks a (localTasks s) \<Longrightarrow>
   dragged tasks a (localTasks (foldl (step isAdmin tasks) s (map (DragOver a) overs)))"
proof (induction overs arbitrary: s)
  case Nil
  then show ?case by simp
next
  case (Cons over overs)
  from Cons.prems have "dragged tasks a (localTasks (handleDragOver isAdmin s a over))"
    by (rule dragged_handleDragOver)
  then show ?case using Cons.IH by simp
qed

lemma dragged_dragEvents:
  "dragged tasks a (localTasks (run isAdmin tasks (dragEvents a overs)))"
proof -
  have "dragged tasks a (localTasks (handleDragStart (initBoard tasks) a))"
    by (simp add: dragged_def handleDragStart_def initBoard_def)
  then show ?thesis
    unfolding run_def dragEvents_def by (simp add: dragged_dragOvers)
qed

lemma dragged_same_status:
  assumes "dragged T a L"
    and "map_option status (find (\<lambda>t. task_id t = a) L) = map_option status (find (\<lambda>t. task_id t = a) T)"
  shows "L = T"
  using assms(1) unfolding dragged_def
proof (elim disjE exE conjE)
  fix i c
  assume i: "findIndex (\<lambda>t. task_id t = a) T = Some i" and L: "L = T[i := (T ! i)\<lparr>status := c\<rparr>]"
  from i have lt: "i < length T" by (rule findIndex_lt)
  have "findIndex (\<lambda>t. task_id t = a) L = Some i"
    using i lt by (simp add: L findIndex_restatus)
  with assms(2) i lt have "c = status (T ! i)" by (simp add: find_findIndex L)
  then show "L = T" by (simp add: L)
qed simp

lemma dragged_differs:
  assumes "dragged T a L"
    and "map_option status (find (\<lambda>t. task_id t = a) L) \<noteq> map_option status (find (\<lambda>t. task_id t = a) T)"
  shows "\<exists>f orig. find (\<lambda>t. task_id t = a) L = Some f \<and> find (\<lambda>t. task_id t = a) T = Some orig \<and>
           status f \<noteq> status orig \<and> \<not> falsy (findContainer L a)"
  using assms(1) unfolding dragged_def
proof (elim disjE exE conjE)
  assume "L = T" with assms(2) show ?thesis by simp
next
  fix i c
  assume i: "findIndex (\<lambda>t. task_id t = a) T = Some i" and c: "c \<noteq> []"
    and L: "L = T[i := (T ! i)\<lparr>status := c\<rparr>]"
  from i have lt: "i < length T" by (rule findIndex_lt)
  have fi: "findIndex (\<lambda>t. task_id t = a) L = Some i"
    using i lt by (simp add: L findIndex_restatus)
  have f: "find (\<lambda>t. task_id t = a) L = Some ((T ! i)\<lparr>status := c\<rparr>)"
    using fi lt by (simp add: find_findIndex L)
  have o: "find (\<lambda>t. task_id t = a) T = Some (T ! i)"
    using i by (simp add: find_findIndex)
  have "\<not> falsy (findContainer L a)"
    using f c by (auto simp: findContainer_def falsy_def columns_def)
  with f o assms(2) show ?thesis by simp
qed

text \<open>
  Claim C4, amended. For a gesture on the task \<open>a\<close> that starts from the synchronised
  board, nothing is committed before the drop, and the drop calls the commit callback
  exactly once, with the task's id and its status in the local copy, if and only if that
  status differs from the status in the external list, the drop target resolves to a
  column, and neither drop guard fires: (1) the card's column in the local copy is
  \<^verbatim>\<open>completed\<close> while the destination is another column, (2) the actor is not an admin
  and the destination is \<^verbatim>\<open>completed\<close>. In every other case no commit is made, and
  when the drop target is absent or resolves to a column the local copy equals the
  external task list after the drop.
\<close>

theorem drop_commits_once_or_reverts:
  "let s = run isAdmin tasks (dragEvents a overs);
       s' = handleDragEnd isAdmin tasks s a over;
       activeContainer = findContainer (localTasks s) a;
       overContainer = (case over of None \<Rightarrow> None
                        | Some overId \<Rightarrow> findContainer (localTasks s) overId);
       finalTask = find (\<lambda>t. task_id t = a) (localTasks s);
       originalTask = find (\<lambda>t. task_id t = a) tasks
   in commits s = [] \<and>
      (if map_option status finalTask \<noteq> map_option status originalTask \<and>
          \<not> falsy overContainer \<and>
          \<not> (activeContainer = Some ''completed'' \<and> overContainer \<noteq> Some ''completed'') \<and>
          \<not> (\<not> isAdmin \<and> overContainer = Some ''completed'')
       then finalTask \<noteq> None \<and> originalTask \<noteq> None \<and>
            commits s' = [(a, status (the finalTask))]
       else commits s' = [] \<and> (over = None \<or> \<not> falsy overContainer \<longrightarrow> localTasks s' = tasks))"
proof -
  let ?s = "run isAdmin tasks (dragEvents a overs)"
  let ?L = "localTasks ?s"
  have c0: "commits ?s = []"
    using commits_dragEvents [of isAdmin tasks "initBoard tasks" a overs]
    by (simp add: run_def initBoard_def)
  have d: "dragged tasks a ?L" by (rule dragged_dragEvents)
  show ?thesis
  proof (cases "map_option status (find (\<lambda>t. task_id t = a) ?L)
                  = map_option status (find (\<lambda>t. task_id t = a) tasks)")
    case True
    with d have "?L = tasks" by (rule dragged_same_status)
    with True c0 show ?thesis
      by (auto simp: Let_def handleDragEnd_def split: option.splits)
  next
    case False
    with d obtain f orig where
      "find (\<lambda>t. task_id t = a) ?L = Some f" "find (\<lambda>t. task_id t = a) tasks = Some orig"
      "status f \<noteq> status orig" "\<not> falsy (findContainer ?L a)"
      using dragged_differs by blast
    with c0 show ?thesis
      by (cases over) (auto simp: Let_def handleDragEnd_def falsy_def)
  qed
qed

subsection \<open>Column grouping and concrete boards\<close>

lemmas board_simps =
  run_def dragEvents_def handleDragStart_def handleDragOver_def handleDragEnd_def
  findContainer_def falsy_def moveTask_def initBoard_def columns_def exTask_def Let_def

lemma groupTasks_lists:
  assumes "groupTasks g ts = Inr g'"
  shows "g_todo g' = g_todo g @ filter (\<lambda>t. status t = ''todo'') ts \<and>
         g_in_progress g' = g_in_progress g @ filter (\<lambda>t. status t = ''in_progress'') ts \<and>
         g_in_review g' = g_in_review g @ filter (\<lambda>t. status t = ''in_review'') ts \<and>
         g_completed g' = g_completed g @ filter (\<lambda>t. status t = ''completed'') ts \<and>
         g_done g' = g_done g @ filter (\<lambda>t. status t = ''done'') ts"
  using assms
proof (induction ts arbitrary: g)
  case Nil
  then show ?case by simp
next
  case (Cons t ts)
  then obtain g1 where g1: "groupTask g t = Inr g1" "groupTasks g1 ts = Inr g'"
    by (auto split: sum.splits)
  from g1(1) have
    "g_todo g1 = g_todo g @ filter (\<lambda>t. status t = ''todo'') [t]"
    "g_in_progress g1 = g_in_progress g @ filter (\<lambda>t. status t = ''in_progress'') [t]"
    "g_in_review g1 = g_in_review g @ filter (\<lambda>t. status t = ''in_review'') [t]"
    "g_completed g1 = g_completed g @ filter (\<lambda>t. status t = ''completed'') [t]"
    "g_done g1 = g_done g @ filter (\<lambda>t. status t = ''done'') [t]"
    by (auto simp: groupTask_def groupedGet_def groupedPush_def split: if_splits)
  with Cons.IH [OF g1(2)] show ?case by simp
qed

lemma groupTasks_throws_iff:
  "(\<exists>e. groupTasks g ts = Inl e) \<longleftrightarrow> (\<exists>t\<in>set ts. status t \<in> set protoKeys)"
proof (induction ts arbitrary: g)
  case Nil
  show ?case by simp
next
  case (Cons t ts)
  show ?case
  proof (cases "groupTask g t")
    case (Inl e)
    then have "status t \<in> set protoKeys"
      by (auto simp: groupTask_def groupedGet_def split: if_splits)
    with Inl show ?thesis by simp
  next
    case (Inr g')
    then have "status t \<notin> set protoKeys"
      by (auto simp: groupTask_def groupedGet_def protoKeys_def split: if_splits)
    with Inr Cons [of g'] show ?thesis by simp
  qed
qed

lemma tasksByStatus_completed:
  assumes "tasksByStatus ts = Inr g"
  shows "columnTasks g ''completed'' = filter (\<lambda>t. status t = ''completed'') ts"
  using groupTasks_lists [of emptyGrouped ts g] assms
  by (simp add: tasksByStatus_def columnTasks_def groupedGet_def emptyGrouped_def)

lemma groupTasks_members:
  assumes "groupTasks g ts = Inr g'"
  shows "set (g_todo g') \<union> set (g_in_progress g') \<union> set (g_in_review g') \<union>
         set (g_completed g') \<union> set (g_done g')
         \<subseteq> set (g_todo g) \<union> set (g_in_progress g) \<union> set (g_in_review g) \<union>
           set (g_completed g) \<union> set (g_done g) \<union> set ts"
  using groupTasks_lists [OF assms] by auto

lemma tasksByStatus_members:
  assumes "tasksByStatus ts = Inr g"
  shows "set (columnTasks g col) \<subseteq> set ts"
  using groupTasks_members [of emptyGrouped ts g] assms
  by (auto simp: tasksByStatus_def columnTasks_def groupedGet_def emptyGrouped_def)

text \<open>
  Claim C1 (column grouping folds the legacy status \<^verbatim>\<open>done\<close> into the completed
  column). The code does not do this: \<^verbatim>\<open>grouped\<close> is created with an own key
  \<^verbatim>\<open>done\<close>, so \<^verbatim>\<open>grouped['done']\<close> is an (empty, truthy) array and a task of status
  \<^verbatim>\<open>done\<close> is pushed there; the fallback that pushes it to \<^verbatim>\<open>completed\<close> is never
  reached. The board renders the four columns only, so the task is shown in no column,
  while \<^verbatim>\<open>findContainer\<close> resolves the same task to \<^verbatim>\<open>completed\<close>. Evaluated on a
  board with one \<^verbatim>\<open>done\<close> and one \<^verbatim>\<open>completed\<close> task: the completed column
  holds the second task only. The stored tasks are untouched (\<open>tasksByStatus_members\<close>).
\<close>

theorem done_task_missing_from_completed_column:
  "tasksByStatus [exTask ''t1'' ''done'', exTask ''t2'' ''completed''] =
     Inr \<lparr>g_todo = [], g_in_progress = [], g_in_review = [],
          g_completed = [exTask ''t2'' ''completed''], g_done = [exTask ''t1'' ''done'']\<rparr> \<and>
   columnTasks \<lparr>g_todo = [], g_in_progress = [], g_in_review = [],
          g_completed = [exTask ''t2'' ''completed''], g_done = [exTask ''t1'' ''done'']\<rparr> ''completed''
     = [exTask ''t2'' ''completed''] \<and>
   findContainer [exTask ''t1'' ''done'', exTask ''t2'' ''completed''] ''t1'' = Some ''completed''"
  by (simp add: tasksByStatus_def groupTask_def groupedGet_def groupedPush_def emptyGrouped_def
      columnTasks_def findContainer_def columns_def exTask_def)

text \<open>
  Witness for C3: an admin drags the completed task \<^verbatim>\<open>t1\<close> over the to-do column and
  drops it there.
\<close>

theorem completed_task_is_terminal_witness:
  "find (\<lambda>t. task_id t = ''t1'') [exTask ''t1'' ''completed'', exTask ''t2'' ''todo'']
     = Some (exTask ''t1'' ''completed'') \<and>
   status (exTask ''t1'' ''completed'') = ''completed'' \<and>
   ''t1'' \<notin> set columns \<and>
   find (\<lambda>t. task_id t = ''t1'')
     (localTasks (run True [exTask ''t1'' ''completed'', exTask ''t2'' ''todo'']
        [DragStart ''t1'', DragOver ''t1'' (Some ''todo''), DragEnd ''t1'' (Some ''todo'')]))
     = Some (exTask ''t1'' ''completed'') \<and>
   commits (run True [exTask ''t1'' ''completed'', exTask ''t2'' ''todo'']
        [DragStart ''t1'', DragOver ''t1'' (Some ''todo''), DragEnd ''t1'' (Some ''todo'')]) = []"
proof -
  have h1: "find (\<lambda>t. task_id t = ''t1'') [exTask ''t1'' ''completed'', exTask ''t2'' ''todo'']
     = Some (exTask ''t1'' ''completed'')" by (simp add: exTask_def)
  have h2: "status (exTask ''t1'' ''completed'') = ''completed'' \<or>
            status (exTask ''t1'' ''completed'') = ''done''" by (simp add: exTask_def)
  have h3: "''t1'' \<notin> set columns" by (simp add: columns_def)
  have c: "commits (run True [exTask ''t1'' ''completed'', exTask ''t2'' ''todo'']
        [DragStart ''t1'', DragOver ''t1'' (Some ''todo''), DragEnd ''t1'' (Some ''todo'')]) = []"
    by (simp add: board_simps)
  from completed_task_is_terminal [OF h1 h2 h3, of True
      "[DragStart ''t1'', DragOver ''t1'' (Some ''todo''), DragEnd ''t1'' (Some ''todo'')]"]
    h1 h3 c
  show ?thesis by (simp add: exTask_def)
qed

text \<open>
  Witness for C2: a non-admin drags \<^verbatim>\<open>t1\<close> from to-do over in-progress (accepted
  optimistically) and on to the completed column, and drops it there.
\<close>

theorem non_admin_cannot_drop_on_completed_witness:
  "findContainer (localTasks (run False [exTask ''t1'' ''todo'']
       ([] @ dragEvents ''t1'' [Some ''in_progress'', Some ''completed''])))
     ''completed'' = Some ''completed'' \<and>
   localTasks (run False [exTask ''t1'' ''todo'']
       (dragEvents ''t1'' [Some ''in_progress'', Some ''completed'']))
     = [exTask ''t1'' ''in_progress''] \<and>
   commits (run False [exTask ''t1'' ''todo'']
       (dragEvents ''t1'' [Some ''in_progress'', Some ''completed'']
          @ [DragEnd ''t1'' (Some ''completed'')])) = [] \<and>
   find (\<lambda>t. task_id t = ''t1'') (localTasks (run False [exTask ''t1'' ''todo'']
       (dragEvents ''t1'' [Some ''in_progress'', Some ''completed'']
          @ [DragEnd ''t1'' (Some ''completed'')]))) = Some (exTask ''t1'' ''todo'')"
proof -
  have h: "findContainer (localTasks (run False [exTask ''t1'' ''todo'']
       ([] @ dragEvents ''t1'' [Some ''in_progress'', Some ''completed''])))
     ''completed'' = Some ''completed''"
    by (simp add: findContainer_def columns_def)
  have l: "localTasks (run False [exTask ''t1'' ''todo'']
       (dragEvents ''t1'' [Some ''in_progress'', Some ''completed'']))
     = [exTask ''t1'' ''in_progress'']"
    by (simp add: board_simps)
  from non_admin_cannot_drop_on_completed [OF h] h l
  show ?thesis by (simp add: Let_def run_Nil initBoard_def exTask_def)
qed

text \<open>
  Witness for C4: an admin drops a to-do task on the completed column (one commit), and
  an admin lets go of a task outside every target (no commit, local copy reset).
\<close>

theorem drop_commits_once_or_reverts_witness:
  "commits (handleDragEnd True [exTask ''t1'' ''todo'']
      (run True [exTask ''t1'' ''todo''] (dragEvents ''t1'' [Some ''completed'']))
      ''t1'' (Some ''completed'')) = [(''t1'', ''completed'')] \<and>
   commits (handleDragEnd True [exTask ''t1'' ''todo'']
      (run True [exTask ''t1'' ''todo''] (dragEvents ''t1'' [Some ''in_progress'']))
      ''t1'' None) = [] \<and>
   localTasks (handleDragEnd True [exTask ''t1'' ''todo'']
      (run True [exTask ''t1'' ''todo''] (dragEvents ''t1'' [Some ''in_progress'']))
      ''t1'' None) = [exTask ''t1'' ''todo'']"
proof -
  have l1: "localTasks (run True [exTask ''t1'' ''todo''] (dragEvents ''t1'' [Some ''completed'']))
     = [exTask ''t1'' ''completed'']"
    by (simp add: board_simps)
  have l2: "localTasks (run True [exTask ''t1'' ''todo''] (dragEvents ''t1'' [Some ''in_progress'']))
     = [exTask ''t1'' ''in_progress'']"
    by (simp add: board_simps)
  from drop_commits_once_or_reverts [of True "[exTask ''t1'' ''todo'']" "''t1''" "[Some ''completed'']" "Some ''completed''"]
    drop_commits_once_or_reverts [of True "[exTask ''t1'' ''todo'']" "''t1''" "[Some ''in_progress'']" None]
    l1 l2
  show ?thesis
    by (simp add: Let_def findContainer_def columns_def falsy_def exTask_def)
qed

text \<open>
  Counterexample to C4 as stated. The claim names the first guard "source not completed"
  and promises a reset without commit whenever a guard fails. An admin drags the to-do
  task \<^verbatim>\<open>t1\<close> over the completed column and drops it there: at the drop the source
  column resolves to \<^verbatim>\<open>completed\<close> (the optimistic copy already moved the card), yet
  the commit is made and the local copy is not reset. Reading "source" as the column the
  gesture started from does not save the claim either: when the same admin drags on to the
  in-progress column and drops there, the original source is not \<^verbatim>\<open>completed\<close>, the
  destination is not \<^verbatim>\<open>completed\<close>, the local status (\<^verbatim>\<open>completed\<close>) differs from
  the external one, and still no commit is made.
\<close>

theorem drop_guard_counterexample:
  "findContainer (localTasks (run True [exTask ''t1'' ''todo''] (dragEvents ''t1'' [Some ''completed''])))
     ''t1'' = Some ''completed'' \<and>
   commits (handleDragEnd True [exTask ''t1'' ''todo'']
      (run True [exTask ''t1'' ''todo''] (dragEvents ''t1'' [Some ''completed'']))
      ''t1'' (Some ''completed'')) = [(''t1'', ''completed'')] \<and>
   localTasks (handleDragEnd True [exTask ''t1'' ''todo'']
      (run True [exTask ''t1'' ''todo''] (dragEvents ''t1'' [Some ''completed'']))
      ''t1'' (Some ''completed'')) \<noteq> [exTask ''t1'' ''todo''] \<and>
   localTasks (run True [exTask ''t1'' ''todo'']
      (dragEvents ''t1'' [Some ''completed'', Some ''in_progress'']))
     = [exTask ''t1'' ''completed''] \<and>
   commits (handleDragEnd True [exTask ''t1'' ''todo'']
      (run True [exTask ''t1'' ''todo''] (dragEvents ''t1'' [Some ''completed'', Some ''in_progress'']))
      ''t1'' (Some ''in_progress'')) = []"
  by (simp add: board_simps)

section \<open>Properties of the number model\<close>

lemma pow2_less_exp: "(2::rat) powi a < 2 powi b \<Longrightarrow> a < b"
  by (rule ccontr) (simp add: not_less power_int_increasing leD)

lemma flog2_bounds:
  assumes "0 < x"
  shows "2 powi (flog2 x) \<le> x \<and> x < 2 powi (flog2 x + 1)"
proof -
  obtain p q where pq: "quotient_of x = (p, q)" by (cases "quotient_of x")
  then have q: "0 < q" and x: "x = of_int p / of_int q"
    by (auto dest: quotient_of_denom_pos quotient_of_div)
  with assms have p: "0 < p" by (simp add: zero_less_divide_iff)
  define e where "e = bitlen p - bitlen q"
  have bp: "1 \<le> bitlen p" and bq: "1 \<le> bitlen q"
    using p q by (simp_all add: bitlen_alt_def)
  have p_lo: "(2::rat) powi (bitlen p - 1) \<le> of_int p"
   and p_hi: "of_int p < (2::rat) powi (bitlen p)"
  proof -
    from bitlen_bounds [OF p] have "2 ^ nat (bitlen p - 1) \<le> p" "p < 2 ^ nat (bitlen p)" by auto
    then have "(of_int (2 ^ nat (bitlen p - 1)) :: rat) \<le> of_int p"
      "(of_int p :: rat) < of_int (2 ^ nat (bitlen p))"
      by (simp_all only: of_int_le_iff of_int_less_iff)
    then show "(2::rat) powi (bitlen p - 1) \<le> of_int p" "of_int p < (2::rat) powi (bitlen p)"
      using bp by (simp_all add: power_int_nonneg_exp)
  qed
  have q_lo: "(2::rat) powi (bitlen q - 1) \<le> of_int q"
   and q_hi: "of_int q < (2::rat) powi (bitlen q)"
  proof -
    from bitlen_bounds [OF q] have "2 ^ nat (bitlen q - 1) \<le> q" "q < 2 ^ nat (bitlen q)" by auto
    then have "(of_int (2 ^ nat (bitlen q - 1)) :: rat) \<le> of_int q"
      "(of_int q :: rat) < of_int (2 ^ nat (bitlen q))"
      by (simp_all only: of_int_le_iff of_int_less_iff)
    then show "(2::rat) powi (bitlen q - 1) \<le> of_int q" "of_int q < (2::rat) powi (bitlen q)"
      using bq by (simp_all add: power_int_nonneg_exp)
  qed
  have up: "x < 2 powi (e + 1)"
  proof -
    have "x < 2 powi (bitlen p) / 2 powi (bitlen q - 1)"
      unfolding x using p p_hi q_lo by (intro frac_less) simp_all
    also have "\<dots> = 2 powi (bitlen p - (bitlen q - 1))"
      by (simp add: power_int_diff)
    also have "bitlen p - (bitlen q - 1) = e + 1"
      by (simp add: e_def)
    finally show ?thesis .
  qed
  have lo: "2 powi (e - 1) \<le> x"
  proof -
    have "2 powi (bitlen p - 1) / 2 powi (bitlen q) \<le> x"
      unfolding x using p q q_hi p_lo by (intro frac_le) simp_all
    moreover have "(2::rat) powi (bitlen p - 1) / 2 powi (bitlen q) = 2 powi (bitlen p - 1 - bitlen q)"
      by (simp add: power_int_diff)
    moreover have "bitlen p - 1 - bitlen q = e - 1"
      by (simp add: e_def)
    ultimately show ?thesis by simp
  qed
  have fl: "flog2 x = (if 2 powi e \<le> x then e else e - 1)"
    by (simp add: flog2_def pq e_def Let_def)
  show ?thesis
  proof (cases "2 powi e \<le> x")
    case True
    with up fl show ?thesis by simp
  next
    case False
    with lo fl show ?thesis by simp
  qed
qed

lemma flog2_unique:
  assumes "2 powi e \<le> x" "x < 2 powi (e + 1)"
  shows "flog2 x = e"
proof -
  have "(0::rat) < 2 powi e" by simp
  with assms have x: "0 < x" by linarith
  from flog2_bounds [OF x] assms have "(2::rat) powi e < 2 powi (flog2 x + 1)"
    "(2::rat) powi (flog2 x) < 2 powi (e + 1)" by linarith+
  then have "e < flog2 x + 1" "flog2 x < e + 1" by (auto dest: pow2_less_exp)
  then show ?thesis by simp
qed

lemma flog2_mono:
  assumes "0 < x" "x \<le> y"
  shows "flog2 x \<le> flog2 y"
proof -
  from assms have y: "0 < y" by simp
  from flog2_bounds [OF assms(1)] flog2_bounds [OF y] assms(2)
  have "(2::rat) powi (flog2 x) < 2 powi (flog2 y + 1)" by linarith
  then show ?thesis by (auto dest: pow2_less_exp)
qed

lemma rne_lower: "of_int m \<le> x \<Longrightarrow> m \<le> rne x"
proof -
  assume "of_int m \<le> x"
  then have "m \<le> \<lfloor>x\<rfloor>" by (simp add: le_floor_iff)
  then show ?thesis by (auto simp: rne_def Let_def)
qed

lemma rne_upper: "x \<le> of_int m \<Longrightarrow> rne x \<le> m"
proof -
  assume a: "x \<le> of_int m"
  then have le: "\<lfloor>x\<rfloor> \<le> m" by (simp add: floor_le_iff)
  show ?thesis
  proof (cases "\<lfloor>x\<rfloor> = m")
    case True
    with a have "x = of_int m" by (metis of_int_floor_le order_antisym)
    then show ?thesis by (simp add: rne_def)
  next
    case False
    with le have "\<lfloor>x\<rfloor> + 1 \<le> m" by simp
    then show ?thesis by (auto simp: rne_def Let_def)
  qed
qed

lemma rne_of_int [simp]: "rne (of_int m) = m"
  by (simp add: rne_def)


lemma rne_numeral [simp]: "rne (numeral n) = numeral n"
  using rne_of_int [of "numeral n"] by simp

lemma ulp_52: "(2::rat) powi e = 2 ^ 52 * 2 powi (e - 52)"
proof -
  have "(2::rat) powi (52 + (e - 52)) = 2 powi 52 * 2 powi (e - 52)"
    by (rule power_int_add) simp
  then show ?thesis by simp
qed

lemma ulp_53: "(2::rat) powi (e + 1) = 2 ^ 53 * 2 powi (e - 52)"
proof -
  have "(2::rat) powi (53 + (e - 52)) = 2 powi 53 * 2 powi (e - 52)"
    by (rule power_int_add) simp
  moreover have "53 + (e - 52) = e + 1" by simp
  ultimately show ?thesis by simp
qed

lemma fl_zero [simp]: "fl 0 = 0"
  by (simp add: fl_def)

lemma fl_eq: "x \<noteq> 0 \<Longrightarrow> fl x = of_int (rne (x / 2 powi (flog2 \<bar>x\<bar> - 52))) * 2 powi (flog2 \<bar>x\<bar> - 52)"
  by (simp add: fl_def Let_def)

lemma scaled_le:
  fixes u :: rat
  assumes "0 < u" and "of_int k * u \<le> x"
  shows "of_int k * u \<le> of_int (rne (x / u)) * u"
proof -
  from assms have "of_int k \<le> x / u" by (simp add: field_simps)
  then have "k \<le> rne (x / u)" by (rule rne_lower)
  then have "(of_int k :: rat) \<le> of_int (rne (x / u))" by (simp only: of_int_le_iff)
  then show ?thesis using assms(1) by (simp only: mult_le_cancel_right_pos)
qed

lemma scaled_ge:
  fixes u :: rat
  assumes "0 < u" and "x \<le> of_int k * u"
  shows "of_int (rne (x / u)) * u \<le> of_int k * u"
proof -
  from assms have "x / u \<le> of_int k" by (simp add: field_simps)
  then have "rne (x / u) \<le> k" by (rule rne_upper)
  then have "(of_int (rne (x / u)) :: rat) \<le> of_int k" by (simp only: of_int_le_iff)
  then show ?thesis using assms(1) by (simp only: mult_le_cancel_right_pos)
qed

lemma fl_pos_ge:
  assumes "0 < x"
  shows "2 powi (flog2 x) \<le> fl x"
proof -
  define u :: rat where "u = 2 powi (flog2 x - 52)"
  define k :: int where "k = 2 ^ 52"
  have u: "0 < u" by (simp add: u_def)
  have eq: "2 powi (flog2 x) = of_int k * u"
    unfolding u_def k_def using ulp_52 [of "flog2 x"] by simp
  from flog2_bounds [OF assms] have "of_int k * u \<le> x" by (simp add: eq)
  with u have "of_int k * u \<le> of_int (rne (x / u)) * u" by (rule scaled_le)
  moreover have "fl x = of_int (rne (x / u)) * u"
    using assms by (simp add: fl_eq u_def)
  ultimately show ?thesis by (simp add: eq)
qed

lemma fl_pos: "0 < x \<Longrightarrow> 0 < fl x"
proof -
  assume x: "0 < x"
  have "(0::rat) < 2 powi (flog2 x)" by simp
  with fl_pos_ge [OF x] show ?thesis by linarith
qed

lemma fl_neg:
  assumes "x < 0"
  shows "fl x < 0"
proof -
  define a where "a = \<bar>x\<bar>"
  define u :: rat where "u = 2 powi (flog2 a - 52)"
  define k :: int where "k = - (2 ^ 52)"
  have u: "0 < u" by (simp add: u_def)
  from assms have a: "0 < a" "x = - a" by (simp_all add: a_def)
  have eq: "2 powi (flog2 a) = - of_int k * u"
    unfolding u_def k_def using ulp_52 [of "flog2 a"] by simp
  from flog2_bounds [OF a(1)] have "x \<le> of_int k * u" by (simp add: eq a(2))
  with u have "of_int (rne (x / u)) * u \<le> of_int k * u" by (rule scaled_ge)
  moreover have "of_int k * u < 0" using u by (simp add: k_def mult_less_0_iff)
  moreover have "fl x = of_int (rne (x / u)) * u"
    using assms by (simp add: fl_eq u_def a_def)
  ultimately show ?thesis by simp
qed

lemma fl_nonneg: "0 \<le> x \<Longrightarrow> 0 \<le> fl x"
  using fl_pos [of x] by (cases "x = 0") (simp_all add: less_le)

lemma fl_le_zero_iff: "fl x \<le> 0 \<longleftrightarrow> x \<le> 0"
proof
  assume "fl x \<le> 0"
  show "x \<le> 0"
  proof (rule ccontr)
    assume "\<not> x \<le> 0"
    then have "0 < fl x" by (simp add: fl_pos)
    with \<open>fl x \<le> 0\<close> show False by simp
  qed
next
  assume "x \<le> 0"
  then consider "x = 0" | "x < 0" by linarith
  then show "fl x \<le> 0"
  proof cases
    case 1 then show ?thesis by simp
  next
    case 2 then show ?thesis using fl_neg [of x] by simp
  qed
qed

lemma fl_upper:
  assumes "x \<le> c" and "0 < c" and "fl c = c"
  shows "fl x \<le> c"
proof (cases "0 < x")
  case False
  then have "fl x \<le> 0" by (simp add: fl_le_zero_iff)
  with assms(2) show ?thesis by simp
next
  case True
  define u :: rat where "u = 2 powi (flog2 x - 52)"
  define v :: rat where "v = 2 powi (flog2 c - 52)"
  have u: "0 < u" and v: "0 < v" by (simp_all add: u_def v_def)
  have flx: "fl x = of_int (rne (x / u)) * u"
    using True by (simp add: fl_eq u_def)
  have flc: "c = of_int (rne (c / v)) * v"
    using assms(2,3) by (simp add: fl_eq v_def)
  from flog2_mono [OF True assms(1)] have le: "flog2 x \<le> flog2 c" .
  show ?thesis
  proof (cases "flog2 x = flog2 c")
    case True
    then have uv: "u = v" by (simp add: u_def v_def)
    from assms(1) flc have "x \<le> of_int (rne (c / v)) * v" by simp
    with v have "of_int (rne (x / v)) * v \<le> of_int (rne (c / v)) * v" by (rule scaled_ge)
    with flx flc uv show ?thesis by simp
  next
    case False
    with le have lt: "flog2 x + 1 \<le> flog2 c" by simp
    define k :: int where "k = 2 ^ 53"
    have eq: "2 powi (flog2 x + 1) = of_int k * u"
      unfolding u_def k_def using ulp_53 [of "flog2 x"] by simp
    from flog2_bounds [OF \<open>0 < x\<close>] have "x \<le> of_int k * u" by (simp add: eq)
    with u have "of_int (rne (x / u)) * u \<le> of_int k * u" by (rule scaled_ge)
    then have "fl x \<le> 2 powi (flog2 x + 1)" by (simp add: flx eq)
    also have "\<dots> \<le> 2 powi (flog2 c)" using lt by (intro power_int_increasing) simp_all
    also have "\<dots> \<le> c" using flog2_bounds [OF assms(2)] by simp
    finally show ?thesis .
  qed
qed

lemma flog2_1: "flog2 1 = 0"
  by (rule flog2_unique) simp_all

lemma flog2_100: "flog2 100 = 6"
  by (rule flog2_unique) simp_all

lemma fl_1: "fl 1 = 1"
  by (simp add: fl_def flog2_1 Let_def power_int_minus)

lemma fl_100: "fl 100 = 100"
  by (simp add: fl_def flog2_100 Let_def power_int_minus)

lemma fl_le_1: "x \<le> 1 \<Longrightarrow> fl x \<le> 1"
  by (rule fl_upper) (simp_all add: fl_1)

lemma fl_le_100: "x \<le> 100 \<Longrightarrow> fl x \<le> 100"
  by (rule fl_upper) (simp_all add: fl_100)

section \<open>Properties of the performance report\<close>

subsection \<open>Rates\<close>

lemma percentOf_bounds:
  assumes "0 \<le> a" "a \<le> b" "0 < b"
  shows "0 \<le> percentOf a b \<and> percentOf a b \<le> 100"
proof -
  define q :: rat where "q = fl (of_int a / of_int b)"
  have "(0::rat) \<le> of_int a / of_int b" using assms by simp
  then have q0: "0 \<le> q" unfolding q_def by (rule fl_nonneg)
  have "(of_int a :: rat) / of_int b \<le> 1" using assms by simp
  then have q1: "q \<le> 1" unfolding q_def by (rule fl_le_1)
  from q0 have "0 \<le> fl (q * 100)" by (intro fl_nonneg) simp
  moreover from q1 have "fl (q * 100) \<le> 100" by (intro fl_le_100) simp
  ultimately show ?thesis by (simp add: percentOf_def q_def)
qed

lemma percentOf_zero: "percentOf 0 b = 0"
  by (simp add: percentOf_def)

lemma toFixed1_bounds:
  assumes "0 \<le> z" "z \<le> 100"
  shows "0 \<le> toFixed1 z \<and> toFixed1 z \<le> 100"
proof -
  have big: "\<not> 10 ^ 21 \<le> \<bar>z\<bar>" using assms by simp
  have "z * 10 + 1 / 2 < 1001" using assms by simp
  then have "\<lfloor>z * 10 + 1 / 2\<rfloor> < 1001" by (simp add: floor_less_iff)
  then have "\<lfloor>z * 10 + 1 / 2\<rfloor> \<le> 1000" by simp
  then have "(of_int \<lfloor>z * 10 + 1 / 2\<rfloor> :: rat) \<le> of_int 1000" by (simp only: of_int_le_iff)
  then have hi: "(of_int \<lfloor>z * 10 + 1 / 2\<rfloor> :: rat) / 10 \<le> 100" by simp
  have "0 \<le> \<lfloor>z * 10 + 1 / 2\<rfloor>" using assms by simp
  then have lo: "0 \<le> (of_int \<lfloor>z * 10 + 1 / 2\<rfloor> :: rat) / 10" by simp
  from big assms lo hi show ?thesis
    by (simp add: toFixed1_def fl_nonneg fl_le_100)
qed

lemma toFixed1_zero: "toFixed1 0 = 0"
proof -
  have "\<lfloor>(1::rat) / 2\<rfloor> = 0" by (simp add: floor_eq_iff)
  then show ?thesis by (simp add: toFixed1_def)
qed

lemma countWhere_bounds: "0 \<le> countWhere P ts \<and> countWhere P ts \<le> totalTasksOf ts"
  by (simp add: countWhere_def totalTasksOf_def)

lemma onTime_le_completed: "tasksCompletedOnTime ts \<le> completedTasksOf ts"
proof -
  have "filter completedOnTime ts = filter completedOnTime (filter (\<lambda>task. status task = ''completed'') ts)"
    by (auto simp: completedOnTime_def intro: filter_cong)
  then have "length (filter completedOnTime ts) \<le> length (filter (\<lambda>task. status task = ''completed'') ts)"
    by (metis length_filter_le)
  then show ?thesis by (simp add: tasksCompletedOnTime_def completedTasksOf_def countWhere_def)
qed

lemma efficiencyOf_bounds: "0 \<le> efficiencyOf ts \<and> efficiencyOf ts \<le> 100"
proof (cases "totalTasksOf ts > 0")
  case True
  have "tasksCompletedOnTime ts \<le> totalTasksOf ts" "0 \<le> tasksCompletedOnTime ts"
    using countWhere_bounds [of completedOnTime ts] by (simp_all add: tasksCompletedOnTime_def)
  with True show ?thesis by (simp add: efficiencyOf_def percentOf_bounds)
next
  case False
  then show ?thesis by (simp add: efficiencyOf_def)
qed

lemma completionRateOf_bounds: "0 \<le> completionRateOf ts \<and> completionRateOf ts \<le> 100"
proof (cases "totalTasksOf ts > 0")
  case True
  have "completedTasksOf ts \<le> totalTasksOf ts" "0 \<le> completedTasksOf ts"
    using countWhere_bounds [of "\<lambda>task. status task = ''completed''" ts]
    by (simp_all add: completedTasksOf_def)
  with True show ?thesis by (simp add: completionRateOf_def percentOf_bounds)
next
  case False
  then show ?thesis by (simp add: completionRateOf_def)
qed

lemma punctualityRateOf_bounds: "0 \<le> punctualityRateOf ts \<and> punctualityRateOf ts \<le> 100"
proof (cases "completedTasksOf ts > 0")
  case True
  have "0 \<le> tasksCompletedOnTime ts"
    using countWhere_bounds [of completedOnTime ts] by (simp add: tasksCompletedOnTime_def)
  with True onTime_le_completed [of ts] show ?thesis
    by (simp add: punctualityRateOf_def percentOf_bounds)
next
  case False
  then show ?thesis by (simp add: punctualityRateOf_def)
qed

subsection \<open>Counting by status\<close>

lemma status_counts_le_total:
  "completedTasksOf ts + inProgressTasksOf ts + todoTasksOf ts + reviewTasksOf ts \<le> totalTasksOf ts"
  unfolding completedTasksOf_def inProgressTasksOf_def todoTasksOf_def reviewTasksOf_def
    totalTasksOf_def countWhere_def
  by (induction ts) auto

lemma cancelledTasksOf_nonneg: "0 \<le> cancelledTasksOf ts"
  using status_counts_le_total [of ts] by (simp add: cancelledTasksOf_def)

lemma orZero_id [simp]: "orZero n = n"
  by (simp add: orZero_def)

subsection \<open>Grouping\<close>

lemma map_of_pushTask:
  "map_of (pushTask acc u t) =
     (map_of acc)(u \<mapsto> (case map_of acc u of None \<Rightarrow> [t] | Some ts \<Rightarrow> ts @ [t]))"
  by (induction acc u t rule: pushTask.induct) (auto simp: fun_eq_iff)

lemma keys_pushTask:
  "map fst (pushTask acc u t) = (if u \<in> set (map fst acc) then map fst acc else map fst acc @ [u])"
  by (induction acc u t rule: pushTask.induct) auto

lemma distinct_pushTask: "distinct (map fst acc) \<Longrightarrow> distinct (map fst (pushTask acc u t))"
  by (simp add: keys_pushTask)

lemma sizes_pushTask:
  "sum_list (map (\<lambda>kv. length (snd kv)) (pushTask acc u t)) =
   Suc (sum_list (map (\<lambda>kv. length (snd kv)) acc))"
  by (induction acc u t rule: pushTask.induct) auto

lemma grouped_of_push:
  assumes "grouped_of seen acc"
  shows "grouped_of (seen @ [t]) (pushTask acc (assigned_user_id t) t)"
  using assms unfolding grouped_of_def
  by (auto simp: map_of_pushTask distinct_pushTask sizes_pushTask)

lemma groupByUser_grouped:
  assumes "groupByUser acc rest = Inr g" and "grouped_of seen acc"
  shows "grouped_of (seen @ rest) g"
  using assms
proof (induction rest arbitrary: acc seen)
  case Nil
  then show ?case by simp
next
  case (Cons t rest)
  from Cons.prems(1) have g: "groupByUser (pushTask acc (assigned_user_id t) t) rest = Inr g"
    by (simp add: Let_def split: if_splits)
  from Cons.IH [OF g grouped_of_push [OF Cons.prems(2)]] show ?case by simp
qed

lemma tasksByUser_grouped:
  assumes "tasksByUser tasks = Inr g"
  shows "grouped_of tasks g"
proof -
  have "grouped_of [] []" by (simp add: grouped_of_def)
  with assms groupByUser_grouped [of "[]" tasks g "[]"] show ?thesis
    by (simp add: tasksByUser_def)
qed

lemma grouped_of_entry:
  assumes "grouped_of tasks g" and "(u, uts) \<in> set g"
  shows "uts = filter (\<lambda>t. assigned_user_id t = u) tasks \<and> uts \<noteq> []"
proof -
  from assms(1) have "distinct (map fst g)" by (simp add: grouped_of_def)
  with assms(2) have "map_of g u = Some uts" by simp
  moreover from assms(1) have "map_of g u =
        (if filter (\<lambda>t. assigned_user_id t = u) tasks = [] then None
         else Some (filter (\<lambda>t. assigned_user_id t = u) tasks))"
    by (simp add: grouped_of_def)
  ultimately show ?thesis by (auto split: if_splits)
qed

lemma mset_objectEntries: "mset (objectEntries kvs) = mset kvs"
  by (simp add: objectEntries_def)

lemma set_objectEntries: "set (objectEntries kvs) = set kvs"
  using mset_objectEntries [of kvs] by (metis set_mset_mset)

lemma sizes_objectEntries:
  "sum_list (map (\<lambda>kv. length (snd kv)) (objectEntries kvs)) =
   sum_list (map (\<lambda>kv. length (snd kv)) kvs)"
proof -
  have "mset (map (\<lambda>kv. length (snd kv)) (objectEntries kvs)) = mset (map (\<lambda>kv. length (snd kv)) kvs)"
    by (simp add: mset_objectEntries)
  then show ?thesis by (metis sum_mset_sum_list)
qed

lemma objectEntries_plain:
  assumes "\<forall>kv\<in>set kvs. \<not> isArrayIndex (fst kv)"
  shows "objectEntries kvs = kvs"
proof -
  from assms have "filter (\<lambda>kv. isArrayIndex (fst kv)) kvs = []"
    by (simp add: filter_empty_conv)
  moreover from assms have "filter (\<lambda>kv. \<not> isArrayIndex (fst kv)) kvs = kvs"
    by (simp add: filter_id_conv)
  ultimately show ?thesis by (simp add: objectEntries_def)
qed

subsection \<open>The records\<close>

lemma emp_id_employeeRecord [simp]:
  "emp_id (fst (employeeRecord clock k u profile uts)) = u"
  by (simp add: employeeRecord_def Let_def split: prod.splits)

lemma buildPerformance_member:
  assumes "r \<in> set (fst (buildPerformance clock k profiles entries))"
  shows "\<exists>u uts profile k0. (u, uts) \<in> set entries \<and>
           find (\<lambda>p. profile_id p = u) profiles = Some profile \<and>
           r = fst (employeeRecord clock k0 u profile uts)"
  using assms
proof (induction entries arbitrary: k)
  case Nil
  then show ?case by simp
next
  case (Cons e entries)
  obtain u uts where e: "e = (u, uts)" by (cases e)
  show ?case
  proof (cases "find (\<lambda>p. profile_id p = u) profiles")
    case None
    with Cons.prems e have "r \<in> set (fst (buildPerformance clock k profiles entries))" by simp
    from Cons.IH [OF this] show ?thesis by auto
  next
    case (Some profile)
    obtain r0 k' where r0: "employeeRecord clock k u profile uts = (r0, k')"
      by (cases "employeeRecord clock k u profile uts")
    obtain rs k'' where rs: "buildPerformance clock k' profiles entries = (rs, k'')"
      by (cases "buildPerformance clock k' profiles entries")
    from Cons.prems e Some r0 rs have "r = r0 \<or> r \<in> set (fst (buildPerformance clock k' profiles entries))"
      by auto
    then show ?thesis
    proof
      assume "r = r0"
      with r0 Some e show ?thesis by (intro exI [of _ u] exI [of _ uts] exI [of _ profile] exI [of _ k]) simp
    next
      assume "r \<in> set (fst (buildPerformance clock k' profiles entries))"
      from Cons.IH [OF this] show ?thesis by auto
    qed
  qed
qed

lemma performanceData_member:
  assumes "performanceData clock tasks profiles = Inr rs" and "r \<in> set rs"
  shows "\<exists>profile k0.
           find (\<lambda>p. profile_id p = emp_id r) profiles = Some profile \<and>
           filter (\<lambda>t. assigned_user_id t = emp_id r) tasks \<noteq> [] \<and>
           r = fst (employeeRecord clock k0 (emp_id r) profile
                      (filter (\<lambda>t. assigned_user_id t = emp_id r) tasks))"
proof -
  from assms(1) obtain g where g: "tasksByUser tasks = Inr g"
    and rs: "rs = fst (buildPerformance clock 0 profiles (objectEntries g))"
    by (auto simp: performanceData_def split: sum.splits)
  from assms(2) rs buildPerformance_member obtain u uts profile k0 where
    m: "(u, uts) \<in> set (objectEntries g)" "find (\<lambda>p. profile_id p = u) profiles = Some profile"
       "r = fst (employeeRecord clock k0 u profile uts)"
    by blast
  from m(1) have "(u, uts) \<in> set g" by (simp add: set_objectEntries)
  with tasksByUser_grouped [OF g] have "uts = filter (\<lambda>t. assigned_user_id t = u) tasks \<and> uts \<noteq> []"
    by (rule grouped_of_entry)
  moreover from m(3) have "emp_id r = u" by simp
  ultimately show ?thesis using m(2,3) by auto
qed

subsection \<open>The sort\<close>

lemma compareFn_le_zero: "compareFn a b \<le> 0 \<longleftrightarrow> performanceScore b \<le> performanceScore a"
  by (simp add: compareFn_def fl_le_zero_iff)

lemma insertByScore_insort:
  "insertByScore x ys = insort_key (\<lambda>r. - performanceScore r) x ys"
  by (induction ys) (simp_all add: compareFn_le_zero)

lemma sortByScore_sort_key: "sortByScore rs = sort_key (\<lambda>r. - performanceScore r) rs"
  by (induction rs) (simp_all add: sortByScore_def insertByScore_insort sort_key_def)

lemma set_sortByScore: "set (sortByScore rs) = set rs"
  by (simp add: sortByScore_sort_key)

lemma calculate_performanceData:
  "calculateEmployeePerformance clock tasks profiles = Inr rs \<longleftrightarrow>
   (\<exists>pd. performanceData clock tasks profiles = Inr pd \<and> rs = sortByScore pd)"
  by (auto simp: calculateEmployeePerformance_def split: sum.splits)

lemma calculate_member:
  assumes "calculateEmployeePerformance clock tasks profiles = Inr rs" and "r \<in> set rs"
  shows "\<exists>profile k0.
           find (\<lambda>p. profile_id p = emp_id r) profiles = Some profile \<and>
           filter (\<lambda>t. assigned_user_id t = emp_id r) tasks \<noteq> [] \<and>
           r = fst (employeeRecord clock k0 (emp_id r) profile
                      (filter (\<lambda>t. assigned_user_id t = emp_id r) tasks))"
proof -
  from assms obtain pd where "performanceData clock tasks profiles = Inr pd" "r \<in> set pd"
    by (auto simp: calculate_performanceData set_sortByScore)
  then show ?thesis by (rule performanceData_member)
qed

lemma employeeRecord_fields:
  "totalTasks (fst (employeeRecord clock k u profile uts)) = totalTasksOf uts"
  "completedTasks (fst (employeeRecord clock k u profile uts)) = completedTasksOf uts"
  "cancelledTasks (fst (employeeRecord clock k u profile uts)) = orZero (cancelledTasksOf uts)"
  "efficiency (fst (employeeRecord clock k u profile uts)) = toFixed1 (efficiencyOf uts)"
  "avgCompletionTime (fst (employeeRecord clock k u profile uts)) = numToFixed1 (avgCompletionTimeOf uts)"
  "completionRate (fst (employeeRecord clock k u profile uts)) = toFixed1 (completionRateOf uts)"
  "punctualityRate (fst (employeeRecord clock k u profile uts)) = toFixed1 (punctualityRateOf uts)"
  "performanceScore (fst (employeeRecord clock k u profile uts)) = toFixed1 (scoreOf uts)"
  "performanceRating (fst (employeeRecord clock k u profile uts)) = ratingOf (scoreOf uts)"
  "emp_name (fst (employeeRecord clock k u profile uts)) = displayName profile"
  "overdueTasks (fst (employeeRecord clock k u profile uts)) = int (length (fst (overdueFilter clock k uts)))"
  by (simp_all add: employeeRecord_def Let_def split: prod.splits)


text \<open>
  Claim C9. In every record of the report the fields \<^verbatim>\<open>completionRate\<close>,
  \<^verbatim>\<open>punctualityRate\<close> and \<^verbatim>\<open>efficiency\<close> lie between 0 and 100, for every task
  list and profile list (and every clock).
\<close>

theorem rates_within_0_100:
  assumes "calculateEmployeePerformance clock tasks profiles = Inr rs" and "r \<in> set rs"
  shows "0 \<le> completionRate r \<and> completionRate r \<le> 100 \<and>
         0 \<le> punctualityRate r \<and> punctualityRate r \<le> 100 \<and>
         0 \<le> efficiency r \<and> efficiency r \<le> 100"
proof -
  let ?uts = "filter (\<lambda>t. assigned_user_id t = emp_id r) tasks"
  from calculate_member [OF assms] obtain profile k0 where
    r: "r = fst (employeeRecord clock k0 (emp_id r) profile ?uts)" by blast
  have "completionRate r = toFixed1 (completionRateOf ?uts)"
    by (subst r) (simp add: employeeRecord_fields)
  moreover have "punctualityRate r = toFixed1 (punctualityRateOf ?uts)"
    by (subst r) (simp add: employeeRecord_fields)
  moreover have "efficiency r = toFixed1 (efficiencyOf ?uts)"
    by (subst r) (simp add: employeeRecord_fields)
  ultimately show ?thesis
    using toFixed1_bounds [of "completionRateOf ?uts"] completionRateOf_bounds [of ?uts]
      toFixed1_bounds [of "punctualityRateOf ?uts"] punctualityRateOf_bounds [of ?uts]
      toFixed1_bounds [of "efficiencyOf ?uts"] efficiencyOf_bounds [of ?uts]
    by simp
qed

lemma overdueFilter_append:
  "overdueFilter clock k (xs @ ys) =
     (let (a, k1) = overdueFilter clock k xs; (b, k2) = overdueFilter clock k1 ys
      in (a @ b, k2))"
  by (induction xs arbitrary: k) (auto simp: Let_def split: prod.splits)

lemma overdueFilter_skip:
  assumes "status t = ''completed''" "finish_time t = None"
  shows "overdueFilter clock k (pre @ t # post) = overdueFilter clock k (pre @ post)"
  using assms by (simp add: overdueFilter_append finishedLate_def split: prod.splits)

lemma not_completedOnTime: "finish_time t = None \<Longrightarrow> \<not> completedOnTime t"
  by (simp add: completedOnTime_def)

lemma no_onTime:
  assumes "\<forall>t\<in>set uts. status t = ''completed'' \<longrightarrow> finish_time t = None"
  shows "tasksCompletedOnTime uts = 0"
proof -
  from assms have "filter completedOnTime uts = []"
    by (auto simp: filter_empty_conv completedOnTime_def)
  then show ?thesis by (simp add: tasksCompletedOnTime_def countWhere_def)
qed

text \<open>
  Claim C10. A completed task with no finish time is counted neither by the
  \<^verbatim>\<open>overdueTasks\<close> filter nor in \<^verbatim>\<open>tasksCompletedOnTime\<close>: taking it out of a task
  list changes neither result (nor the clock readings taken). And for an employee of the
  report all of whose completed tasks lack a finish time and who has a completed task,
  \<^verbatim>\<open>punctualityRate\<close> and \<^verbatim>\<open>efficiency\<close> are 0, so strictly below 100.
\<close>

theorem completed_without_finish_time:
  "(status t = ''completed'' \<and> finish_time t = None \<longrightarrow>
      overdueFilter clock k (pre @ t # post) = overdueFilter clock k (pre @ post) \<and>
      tasksCompletedOnTime (pre @ t # post) = tasksCompletedOnTime (pre @ post)) \<and>
   (calculateEmployeePerformance clock tasks profiles = Inr rs \<and> r \<in> set rs \<and>
    (\<forall>x\<in>set tasks. assigned_user_id x = emp_id r \<and> status x = ''completed''
        \<longrightarrow> finish_time x = None) \<and>
    0 < completedTasks r \<longrightarrow>
      punctualityRate r = 0 \<and> efficiency r = 0 \<and> punctualityRate r < 100 \<and> efficiency r < 100)"
proof (intro conjI impI)
  assume "status t = ''completed'' \<and> finish_time t = None"
  then show "overdueFilter clock k (pre @ t # post) = overdueFilter clock k (pre @ post)"
    by (simp add: overdueFilter_skip)
next
  assume "status t = ''completed'' \<and> finish_time t = None"
  then show "tasksCompletedOnTime (pre @ t # post) = tasksCompletedOnTime (pre @ post)"
    by (simp add: tasksCompletedOnTime_def countWhere_def not_completedOnTime)
next
  assume a: "calculateEmployeePerformance clock tasks profiles = Inr rs \<and> r \<in> set rs \<and>
    (\<forall>x\<in>set tasks. assigned_user_id x = emp_id r \<and> status x = ''completed''
        \<longrightarrow> finish_time x = None) \<and> 0 < completedTasks r"
  let ?uts = "filter (\<lambda>t. assigned_user_id t = emp_id r) tasks"
  from a calculate_member obtain profile k0 where
    r: "r = fst (employeeRecord clock k0 (emp_id r) profile ?uts)" by blast
  from a have "tasksCompletedOnTime ?uts = 0" by (intro no_onTime) auto
  then have z: "punctualityRateOf ?uts = 0" "efficiencyOf ?uts = 0"
    by (simp_all add: punctualityRateOf_def efficiencyOf_def percentOf_zero)
  have p: "punctualityRate r = 0"
    by (subst r) (simp add: employeeRecord_fields z toFixed1_zero)
  have e: "efficiency r = 0"
    by (subst r) (simp add: employeeRecord_fields z toFixed1_zero)
  from p e show "punctualityRate r = 0" "efficiency r = 0" "punctualityRate r < 100" "efficiency r < 100"
    by simp_all
qed

subsection \<open>The weighted sum in double arithmetic\<close>

lemma rne_error: "\<bar>of_int (rne q) - q\<bar> \<le> 1 / 2"
proof -
  define n where "n = \<lfloor>q\<rfloor>"
  define d where "d = q - of_int n"
  have d: "0 \<le> d" "d < 1" unfolding d_def n_def by linarith+
  have q: "q = of_int n + d" by (simp add: d_def)
  have "rne q = (if d < 1 / 2 then n else if 1 / 2 < d then n + 1 else if even n then n else n + 1)"
    by (simp add: rne_def n_def d_def Let_def)
  with d show ?thesis by (auto simp: q abs_if)
qed

lemma fl_error: "\<bar>fl x - x\<bar> \<le> \<bar>x\<bar> / 2 ^ 53"
proof (cases "x = 0")
  case True
  then show ?thesis by simp
next
  case False
  define u :: rat where "u = 2 powi (flog2 \<bar>x\<bar> - 52)"
  have u: "0 < u" by (simp add: u_def)
  have flx: "fl x = of_int (rne (x / u)) * u"
    using False by (simp add: fl_eq u_def)
  have "fl x - x = (of_int (rne (x / u)) - x / u) * u"
    using u by (simp add: flx field_simps)
  then have "\<bar>fl x - x\<bar> = \<bar>of_int (rne (x / u)) - x / u\<bar> * u"
    using u by (simp add: abs_mult)
  also have "\<dots> \<le> 1 / 2 * u"
    using u rne_error [of "x / u"] by (intro mult_right_mono) simp_all
  finally have 1: "\<bar>fl x - x\<bar> \<le> u / 2" by simp
  from False have "0 < \<bar>x\<bar>" by simp
  from flog2_bounds [OF this] have "2 powi (flog2 \<bar>x\<bar>) \<le> \<bar>x\<bar>" by simp
  then have "2 ^ 52 * u \<le> \<bar>x\<bar>" using ulp_52 [of "flog2 \<bar>x\<bar>"] by (simp add: u_def)
  then have "u / 2 \<le> \<bar>x\<bar> / 2 ^ 53" by simp
  with 1 show ?thesis by linarith
qed

lemma fl_error_bound:
  assumes "\<bar>x\<bar> \<le> b"
  shows "\<bar>fl x - x\<bar> \<le> b / 2 ^ 53"
proof -
  have "\<bar>x\<bar> / 2 ^ 53 \<le> b / 2 ^ 53" using assms by (simp add: divide_right_mono)
  with fl_error [of x] show ?thesis by linarith
qed

lemma term_error:
  assumes "0 \<le> x" "x \<le> 100" "0 \<le> w" "w \<le> 1"
  shows "\<bar>fl (x * fl w) - x * w\<bar> \<le> 201 / 2 ^ 53"
proof -
  define e :: rat where "e = 1 / 2 ^ 53"
  have e: "0 < e" "e \<le> 1 / 100" by (simp_all add: e_def)
  from assms have "\<bar>fl w - w\<bar> \<le> 1 / 2 ^ 53" by (intro fl_error_bound) simp
  then have w: "\<bar>fl w - w\<bar> \<le> e" by (simp add: e_def)
  have "\<bar>x * fl w - x * w\<bar> = x * \<bar>fl w - w\<bar>"
    using assms(1) by (simp add: abs_mult flip: right_diff_distrib)
  also have "\<dots> \<le> 100 * e"
    using assms(1,2) w by (intro mult_mono) simp_all
  finally have 1: "\<bar>x * fl w - x * w\<bar> \<le> 100 * e" .
  have "x * w \<le> 100 * 1" using assms by (intro mult_mono) simp_all
  moreover have "0 \<le> x * w" using assms by simp
  ultimately have "\<bar>x * fl w\<bar> \<le> 101" using 1 e by (simp add: abs_if split: if_splits)
  then have "\<bar>fl (x * fl w) - x * fl w\<bar> \<le> 101 / 2 ^ 53" by (rule fl_error_bound)
  then have 2: "\<bar>fl (x * fl w) - x * fl w\<bar> \<le> 101 * e" by (simp add: e_def)
  from 1 2 have "\<bar>fl (x * fl w) - x * w\<bar> \<le> 201 * e" by linarith
  then show ?thesis by (simp add: e_def)
qed

lemma add_error:
  assumes "\<bar>s - S\<bar> \<le> E" "\<bar>p - P\<bar> \<le> 201 / 2 ^ 53" "0 \<le> S + P" "S + P \<le> 100" "E \<le> 1 / 2"
  shows "\<bar>fl (s + p) - (S + P)\<bar> \<le> E + 302 / 2 ^ 53"
proof -
  define e :: rat where "e = 1 / 2 ^ 53"
  have e: "0 < e" "201 * e \<le> 1 / 2" by (simp_all add: e_def)
  from assms(2) have p: "\<bar>p - P\<bar> \<le> 201 * e" by (simp add: e_def)
  with assms(1) have 1: "\<bar>(s + p) - (S + P)\<bar> \<le> E + 201 * e" by linarith
  with assms(3,4,5) e have "\<bar>s + p\<bar> \<le> 101" by linarith
  then have "\<bar>fl (s + p) - (s + p)\<bar> \<le> 101 / 2 ^ 53" by (rule fl_error_bound)
  then have 2: "\<bar>fl (s + p) - (s + p)\<bar> \<le> 101 * e" by (simp add: e_def)
  from 1 2 have "\<bar>fl (s + p) - (S + P)\<bar> \<le> E + 302 * e" by linarith
  then show ?thesis by (simp add: e_def)
qed

lemma weightedScore_exact:
  assumes "0 \<le> cr" "cr \<le> 100" "0 \<le> pr" "pr \<le> 100" "0 \<le> eff" "eff \<le> 100"
    and "0 \<le> te" "te \<le> 100" "cs \<le> 100"
  shows "\<bar>weightedScore cr pr eff te cs -
           (3 / 10 * cr + 1 / 4 * pr + 1 / 5 * eff + 3 / 20 * te + 1 / 10 * max 0 cs)\<bar>
         \<le> 1 / 10 ^ 12"
proof -
  define e :: rat where "e = 1 / 2 ^ 53"
  define m where "m = max 0 cs"
  have m: "0 \<le> m" "m \<le> 100" using assms(9) by (simp_all add: m_def)
  define p1 where "p1 = fl (cr * fl (3 / 10))"
  define p2 where "p2 = fl (pr * fl (25 / 100))"
  define p3 where "p3 = fl (eff * fl (2 / 10))"
  define p4 where "p4 = fl (te * fl (15 / 100))"
  define p5 where "p5 = fl (m * fl (1 / 10))"
  define s1 where "s1 = fl (0 + p1)"
  define s2 where "s2 = fl (s1 + p2)"
  define s3 where "s3 = fl (s2 + p3)"
  define s4 where "s4 = fl (s3 + p4)"
  define s5 where "s5 = fl (s4 + p5)"
  have ws: "weightedScore cr pr eff te cs = s5"
    by (simp add: weightedScore_def Let_def s5_def s4_def s3_def s2_def s1_def
        p1_def p2_def p3_def p4_def p5_def m_def)
  have t1: "\<bar>p1 - cr * (3 / 10)\<bar> \<le> 201 / 2 ^ 53"
    unfolding p1_def using assms by (intro term_error) simp_all
  have t2: "\<bar>p2 - pr * (25 / 100)\<bar> \<le> 201 / 2 ^ 53"
    unfolding p2_def using assms by (intro term_error) simp_all
  have t3: "\<bar>p3 - eff * (2 / 10)\<bar> \<le> 201 / 2 ^ 53"
    unfolding p3_def using assms by (intro term_error) simp_all
  have t4: "\<bar>p4 - te * (15 / 100)\<bar> \<le> 201 / 2 ^ 53"
    unfolding p4_def using assms by (intro term_error) simp_all
  have t5: "\<bar>p5 - m * (1 / 10)\<bar> \<le> 201 / 2 ^ 53"
    unfolding p5_def using m by (intro term_error) simp_all
  have a1: "\<bar>s1 - (0 + cr * (3 / 10))\<bar> \<le> 0 + 302 / 2 ^ 53"
    unfolding s1_def using assms t1 by (intro add_error) simp_all
  have a2: "\<bar>s2 - ((0 + cr * (3 / 10)) + pr * (25 / 100))\<bar> \<le> (0 + 302 / 2 ^ 53) + 302 / 2 ^ 53"
    unfolding s2_def using assms a1 t2 by (intro add_error) simp_all
  have a3: "\<bar>s3 - (((0 + cr * (3 / 10)) + pr * (25 / 100)) + eff * (2 / 10))\<bar>
              \<le> ((0 + 302 / 2 ^ 53) + 302 / 2 ^ 53) + 302 / 2 ^ 53"
    unfolding s3_def using assms a2 t3 by (intro add_error) simp_all
  have a4: "\<bar>s4 - ((((0 + cr * (3 / 10)) + pr * (25 / 100)) + eff * (2 / 10)) + te * (15 / 100))\<bar>
              \<le> (((0 + 302 / 2 ^ 53) + 302 / 2 ^ 53) + 302 / 2 ^ 53) + 302 / 2 ^ 53"
    unfolding s4_def using assms a3 t4 by (intro add_error) simp_all
  have a5: "\<bar>s5 - (((((0 + cr * (3 / 10)) + pr * (25 / 100)) + eff * (2 / 10)) + te * (15 / 100))
                     + m * (1 / 10))\<bar>
              \<le> ((((0 + 302 / 2 ^ 53) + 302 / 2 ^ 53) + 302 / 2 ^ 53) + 302 / 2 ^ 53) + 302 / 2 ^ 53"
    unfolding s5_def using assms m a4 t5 by (intro add_error) simp_all
  have b: "((((0 + 302 / 2 ^ 53) + 302 / 2 ^ 53) + 302 / 2 ^ 53) + 302 / 2 ^ 53) + 302 / 2 ^ 53
          \<le> (1::rat) / 10 ^ 12" by simp
  have x: "((((0 + cr * (3 / 10)) + pr * (25 / 100)) + eff * (2 / 10)) + te * (15 / 100))
             + m * (1 / 10)
           = 3 / 10 * cr + 1 / 4 * pr + 1 / 5 * eff + 3 / 20 * te + 1 / 10 * max 0 cs"
    by (simp add: m_def)
  from a5 b have "\<bar>s5 - (((((0 + cr * (3 / 10)) + pr * (25 / 100)) + eff * (2 / 10))
      + te * (15 / 100)) + m * (1 / 10))\<bar> \<le> 1 / 10 ^ 12"
    by (rule order_trans)
  then show ?thesis unfolding ws x .
qed

lemma timeEfficiency_bounds: "0 \<le> timeEfficiency avg \<and> timeEfficiency avg \<le> 100"
proof (cases avg)
  case NaN
  then show ?thesis by (simp add: timeEfficiency_def)
next
  case (Num a)
  show ?thesis
  proof (cases "0 < a")
    case True
    then have "0 \<le> fl (a * 5)" by (intro fl_nonneg) simp
    then have "fl (100 - fl (a * 5)) \<le> 100" by (intro fl_le_100) simp
    with True Num show ?thesis by (simp add: timeEfficiency_def)
  next
    case False
    with Num show ?thesis by (simp add: timeEfficiency_def)
  qed
qed

lemma cancellationRate_bounds: "0 \<le> cancellationRate uts \<and> cancellationRate uts \<le> 100"
proof (cases "totalTasksOf uts > 0")
  case True
  have "cancelledTasksOf uts \<le> totalTasksOf uts"
    using countWhere_bounds [of "\<lambda>task. status task = ''completed''" uts]
      countWhere_bounds [of "\<lambda>task. status task = ''in_progress''" uts]
      countWhere_bounds [of "\<lambda>task. status task = ''todo''" uts]
      countWhere_bounds [of "\<lambda>task. status task = ''in_review'' \<or> status task = ''done''" uts]
    by (simp add: cancelledTasksOf_def completedTasksOf_def
        inProgressTasksOf_def todoTasksOf_def reviewTasksOf_def)
  with True cancelledTasksOf_nonneg [of uts] show ?thesis
    by (simp add: cancellationRate_def percentOf_bounds)
next
  case False
  then show ?thesis by (simp add: cancellationRate_def)
qed

lemma cancellationScore_bounds: "0 \<le> cancellationScore uts \<and> cancellationScore uts \<le> 100"
  using cancellationRate_bounds [of uts]
  by (simp add: cancellationScore_def fl_nonneg fl_le_100)

lemma scoreOf_exact:
  "\<bar>scoreOf uts -
     (3 / 10 * completionRateOf uts + 1 / 4 * punctualityRateOf uts + 1 / 5 * efficiencyOf uts +
      3 / 20 * timeEfficiency (avgCompletionTimeOf uts) +
      1 / 10 * max 0 (cancellationScore uts))\<bar> \<le> 1 / 10 ^ 12"
  unfolding scoreOf_def
  using completionRateOf_bounds [of uts] punctualityRateOf_bounds [of uts]
    efficiencyOf_bounds [of uts] timeEfficiency_bounds [of "avgCompletionTimeOf uts"]
    cancellationScore_bounds [of uts]
  by (intro weightedScore_exact) simp_all

lemma ratingOf_cases:
  "(ratingOf s = excellent \<longleftrightarrow> 85 \<le> s) \<and>
   (ratingOf s = good \<longleftrightarrow> 70 \<le> s \<and> s < 85) \<and>
   (ratingOf s = average \<longleftrightarrow> 50 \<le> s \<and> s < 70) \<and>
   (ratingOf s = needs_improvement \<longleftrightarrow> s < 50)"
  by (auto simp: ratingOf_def)

text \<open>
  Claim C5, amended. For every record of the report, with \<open>userTasks\<close> the tasks
  assigned to that employee: \<^verbatim>\<open>performanceScore\<close> is the weighted sum
  \<open>0.30 * completionRate + 0.25 * punctualityRate + 0.20 * efficiency +
  0.15 * timeEfficiency + 0.10 * max 0 cancellationScore\<close>, computed in double arithmetic
  from the unrounded rates (\<open>weightedScore\<close>), and then rounded to one decimal by
  \<^verbatim>\<open>parseFloat(score.toFixed(1))\<close>; the rate fields of the record and
  \<^verbatim>\<open>avgCompletionTime\<close> are rounded in the same way; \<open>timeEfficiency\<close> is
  \<open>max 0 (100 - avgCompletionTime * 5)\<close> when the unrounded average is positive and 100
  otherwise; and the rating is decided by the unrounded sum: excellent from 85, good from
  70, average from 50, needs improvement below. The lemma \<open>weightedScore_exact\<close> bounds
  the distance between the double sum and the exact one.
\<close>

theorem performanceScore_is_rounded_weighted_sum:
  assumes "calculateEmployeePerformance clock tasks profiles = Inr rs" and "r \<in> set rs"
  shows "let userTasks = filter (\<lambda>t. assigned_user_id t = emp_id r) tasks;
             avg = avgCompletionTimeOf userTasks;
             score = weightedScore (completionRateOf userTasks) (punctualityRateOf userTasks)
                       (efficiencyOf userTasks) (timeEfficiency avg) (cancellationScore userTasks)
         in performanceScore r = toFixed1 score \<and>
            completionRate r = toFixed1 (completionRateOf userTasks) \<and>
            punctualityRate r = toFixed1 (punctualityRateOf userTasks) \<and>
            efficiency r = toFixed1 (efficiencyOf userTasks) \<and>
            avgCompletionTime r = numToFixed1 avg \<and>
            timeEfficiency avg =
              (case avg of Num a \<Rightarrow> if 0 < a then max 0 (fl (100 - fl (a * 5))) else 100
               | NaN \<Rightarrow> 100) \<and>
            cancellationScore userTasks = fl (100 - cancellationRate userTasks) \<and>
            \<bar>score -
               (3 / 10 * completionRateOf userTasks + 1 / 4 * punctualityRateOf userTasks +
                1 / 5 * efficiencyOf userTasks + 3 / 20 * timeEfficiency avg +
                1 / 10 * max 0 (cancellationScore userTasks))\<bar> \<le> 1 / 10 ^ 12 \<and>
            (performanceRating r = excellent \<longleftrightarrow> 85 \<le> score) \<and>
            (performanceRating r = good \<longleftrightarrow> 70 \<le> score \<and> score < 85) \<and>
            (performanceRating r = average \<longleftrightarrow> 50 \<le> score \<and> score < 70) \<and>
            (performanceRating r = needs_improvement \<longleftrightarrow> score < 50)"
proof -
  let ?uts = "filter (\<lambda>t. assigned_user_id t = emp_id r) tasks"
  from calculate_member [OF assms] obtain profile k0 where
    r: "r = fst (employeeRecord clock k0 (emp_id r) profile ?uts)" by blast
  have f: "performanceScore r = toFixed1 (scoreOf ?uts)"
    "performanceRating r = ratingOf (scoreOf ?uts)"
    "completionRate r = toFixed1 (completionRateOf ?uts)"
    "punctualityRate r = toFixed1 (punctualityRateOf ?uts)"
    "efficiency r = toFixed1 (efficiencyOf ?uts)"
    "avgCompletionTime r = numToFixed1 (avgCompletionTimeOf ?uts)"
    by (subst r, simp add: employeeRecord_fields)+
  have t: "timeEfficiency (avgCompletionTimeOf ?uts) =
             (case avgCompletionTimeOf ?uts of
                Num a \<Rightarrow> if 0 < a then max 0 (fl (100 - fl (a * 5))) else 100
              | NaN \<Rightarrow> 100)"
    by (simp add: timeEfficiency_def)
  have c: "cancellationScore ?uts = fl (100 - cancellationRate ?uts)"
    by (simp add: cancellationScore_def)
  note g = f [unfolded scoreOf_def] scoreOf_exact [of ?uts, unfolded scoreOf_def]
    ratingOf_cases [of "scoreOf ?uts", unfolded f(2) [symmetric], unfolded scoreOf_def]
  show ?thesis
    unfolding Let_def using g t c by (intro conjI) blast+
qed

subsection \<open>When the function returns\<close>

text \<open>
  The function throws exactly when a task is assigned to a user id that names a property
  of \<^verbatim>\<open>Object.prototype\<close>; otherwise it returns a report.
\<close>

lemma groupByUser_throws_iff:
  "(\<exists>e. groupByUser acc tasks = Inl e) \<longleftrightarrow>
   (\<exists>t\<in>set tasks. assigned_user_id t \<in> set protoKeys)"
  by (induction tasks arbitrary: acc) (auto simp: Let_def)

lemma calculate_throws_iff:
  "(\<exists>e. calculateEmployeePerformance clock tasks profiles = Inl e) \<longleftrightarrow>
   (\<exists>t\<in>set tasks. assigned_user_id t \<in> set protoKeys)"
  using groupByUser_throws_iff [of "[]" tasks]
  by (auto simp: calculateEmployeePerformance_def performanceData_def tasksByUser_def
      split: sum.splits)

lemma calculate_returns:
  assumes "\<forall>t\<in>set tasks. assigned_user_id t \<notin> set protoKeys"
  shows "\<exists>rs. calculateEmployeePerformance clock tasks profiles = Inr rs"
proof (cases "calculateEmployeePerformance clock tasks profiles")
  case (Inl e)
  with calculate_throws_iff [of clock tasks profiles] assms show ?thesis by blast
next
  case (Inr rs)
  then show ?thesis by blast
qed

subsection \<open>Sorting\<close>

lemma sorted_sortByScore:
  "sorted_wrt (\<lambda>a b. performanceScore b \<le> performanceScore a) (sortByScore rs)"
proof -
  have "sorted (map (\<lambda>r. - performanceScore r) (sortByScore rs))"
    by (simp add: sortByScore_sort_key)
  then show ?thesis by (simp add: sorted_map)
qed

lemma stable_sortByScore:
  "filter (\<lambda>r. performanceScore r = s) (sortByScore rs) = filter (\<lambda>r. performanceScore r = s) rs"
proof -
  have "filter (\<lambda>r. - performanceScore r = - s) (sortByScore rs) =
        filter (\<lambda>r. - performanceScore r = - s) rs"
    unfolding sortByScore_sort_key by (rule sort_key_stable)
  then show ?thesis by simp
qed

lemma sortByScore_idem: "sortByScore (sortByScore rs) = sortByScore rs"
proof -
  have "sorted (map (\<lambda>r. - performanceScore r) (sortByScore rs))"
    by (simp add: sortByScore_sort_key)
  then have "sort_key (\<lambda>r. - performanceScore r) (sortByScore rs) = sortByScore rs"
    by (rule sort_key_id_if_sorted)
  then show ?thesis by (simp add: sortByScore_sort_key)
qed

lemma mset_sortByScore: "mset (sortByScore rs) = mset rs"
  by (simp add: sortByScore_sort_key)

text \<open>
  The result of sorting is determined by what the language promises of
  \<^verbatim>\<open>Array.prototype.sort\<close>: a rearrangement that is sorted for the comparator and
  stable is the list \<open>sortByScore\<close> returns.
\<close>

lemma sortByScore_unique:
  assumes "mset ys = mset rs"
    and "sorted_wrt (\<lambda>a b. performanceScore b \<le> performanceScore a) ys"
    and "\<forall>s. filter (\<lambda>r. performanceScore r = s) ys = filter (\<lambda>r. performanceScore r = s) rs"
  shows "ys = sortByScore rs"
proof -
  have "sort_key (\<lambda>r. - performanceScore r) rs = ys"
  proof (rule properties_for_sort_key)
    show "mset ys = mset rs" by (rule assms(1))
  next
    fix k
    have e: "(\<lambda>x. - performanceScore k = - performanceScore x) =
          (\<lambda>r. performanceScore r = performanceScore k)"
      by (rule ext) auto
    from assms(3) have "filter (\<lambda>r. performanceScore r = performanceScore k) ys =
          filter (\<lambda>r. performanceScore r = performanceScore k) rs" by (rule spec)
    then show "filter (\<lambda>x. - performanceScore k = - performanceScore x) ys =
          filter (\<lambda>x. - performanceScore k = - performanceScore x) rs"
      unfolding e .
  next
    from assms(2) show "sorted (map (\<lambda>r. - performanceScore r) ys)"
      by (simp add: sorted_map)
  qed
  then show ?thesis by (simp add: sortByScore_sort_key)
qed

text \<open>
  Claim C8. The returned sequence is non-increasing in \<^verbatim>\<open>performanceScore\<close>; it is a
  rearrangement of \<^verbatim>\<open>performanceData\<close>, the records in the order in which the loop
  met the employees, and for each score the records of that score stand in that order
  (the sort is stable); sorting the returned sequence again by score returns it unchanged.
\<close>

theorem sorted_by_score_stable_idempotent:
  assumes "calculateEmployeePerformance clock tasks profiles = Inr rs"
  shows "sorted_wrt (\<lambda>a b. performanceScore b \<le> performanceScore a) rs \<and>
         (\<exists>pd. performanceData clock tasks profiles = Inr pd \<and> mset rs = mset pd \<and>
               (\<forall>s. filter (\<lambda>r. performanceScore r = s) rs =
                    filter (\<lambda>r. performanceScore r = s) pd)) \<and>
         sortByScore rs = rs"
proof -
  from assms obtain pd where pd: "performanceData clock tasks profiles = Inr pd"
    and rs: "rs = sortByScore pd"
    by (auto simp: calculate_performanceData)
  from pd show ?thesis
    unfolding rs by (simp add: sorted_sortByScore stable_sortByScore sortByScore_idem mset_sortByScore)
qed

subsection \<open>The clock\<close>

lemma overdueFilter_reads_exact:
  "snd (overdueFilter clock k ts) = k + length (filter openTask ts)"
proof (induction ts arbitrary: k)
  case Nil
  show ?case by simp
next
  case (Cons t ts)
  from Cons [of k] Cons [of "Suc k"] show ?case
    by (auto simp: Let_def openTask_def split: prod.splits)
qed

lemma overdueFilter_agree:
  assumes "\<forall>i. k \<le> i \<and> i < k + length (filter openTask ts) \<longrightarrow> c1 i = c2 i"
  shows "overdueFilter c1 k ts = overdueFilter c2 k ts"
  using assms
proof (induction ts arbitrary: k)
  case Nil
  show ?case by simp
next
  case (Cons t ts)
  show ?case
  proof (cases "status t = ''completed''")
    case True
    then have "overdueFilter c1 k ts = overdueFilter c2 k ts"
      using Cons.prems by (intro Cons.IH) (simp add: openTask_def)
    with True show ?thesis by simp
  next
    case False
    then have "overdueFilter c1 (Suc k) ts = overdueFilter c2 (Suc k) ts"
      using Cons.prems by (intro Cons.IH) (simp add: openTask_def)
    moreover from False Cons.prems have "c1 k = c2 k" by (simp add: openTask_def)
    ultimately show ?thesis using False by simp
  qed
qed

lemma employeeRecord_reads_exact:
  "snd (employeeRecord clock k u profile uts) = k + length (filter openTask uts)"
  using overdueFilter_reads_exact [of clock k uts]
  by (auto simp: employeeRecord_def Let_def split: prod.splits)

lemma employeeRecord_agree:
  assumes "\<forall>i. k \<le> i \<and> i < k + length (filter openTask uts) \<longrightarrow> c1 i = c2 i"
  shows "employeeRecord c1 k u profile uts = employeeRecord c2 k u profile uts"
  using overdueFilter_agree [OF assms] by (simp add: employeeRecord_def)

lemma buildPerformance_reads_exact:
  "snd (buildPerformance clock k profiles entries) = k + sum_list (map (entryReads profiles) entries)"
proof (induction entries arbitrary: k)
  case Nil
  show ?case by simp
next
  case (Cons e entries)
  obtain u uts where e: "e = (u, uts)" by (cases e)
  show ?case
  proof (cases "find (\<lambda>p. profile_id p = u) profiles")
    case None
    with Cons [of k] e show ?thesis by (simp add: entryReads_def)
  next
    case (Some profile)
    obtain r0 k' where r0: "employeeRecord clock k u profile uts = (r0, k')"
      by (cases "employeeRecord clock k u profile uts")
    with employeeRecord_reads_exact [of clock k u profile uts]
    have "k' = k + length (filter openTask uts)" by simp
    with Cons [of k'] Some e r0 show ?thesis
      by (auto simp: entryReads_def split: prod.splits)
  qed
qed

lemma buildPerformance_agree:
  assumes "\<forall>i. k \<le> i \<and> i < k + sum_list (map (entryReads profiles) entries) \<longrightarrow> c1 i = c2 i"
  shows "buildPerformance c1 k profiles entries = buildPerformance c2 k profiles entries"
  using assms
proof (induction entries arbitrary: k)
  case Nil
  show ?case by simp
next
  case (Cons e entries)
  obtain u uts where e: "e = (u, uts)" by (cases e)
  show ?case
  proof (cases "find (\<lambda>p. profile_id p = u) profiles")
    case None
    have "buildPerformance c1 k profiles entries = buildPerformance c2 k profiles entries"
      using Cons.prems e None by (intro Cons.IH) (simp add: entryReads_def)
    with None e show ?thesis by simp
  next
    case (Some profile)
    have er: "employeeRecord c1 k u profile uts = employeeRecord c2 k u profile uts"
      using Cons.prems e Some by (intro employeeRecord_agree) (simp add: entryReads_def)
    obtain r0 k' where r0: "employeeRecord c2 k u profile uts = (r0, k')"
      by (cases "employeeRecord c2 k u profile uts")
    with employeeRecord_reads_exact [of c2 k u profile uts]
    have k': "k' = k + length (filter openTask uts)" by simp
    have "buildPerformance c1 k' profiles entries = buildPerformance c2 k' profiles entries"
      using Cons.prems e Some by (intro Cons.IH) (simp add: entryReads_def k')
    with Some e er r0 show ?thesis by simp
  qed
qed

lemma eraseOverdue_employeeRecord:
  "eraseOverdue (fst (employeeRecord c1 k1 u profile uts)) =
   eraseOverdue (fst (employeeRecord c2 k2 u profile uts))"
  by (simp add: employeeRecord_def eraseOverdue_def Let_def split: prod.splits)

lemma eraseOverdue_build:
  "map eraseOverdue (fst (buildPerformance c1 k1 profiles entries)) =
   map eraseOverdue (fst (buildPerformance c2 k2 profiles entries))"
proof (induction entries arbitrary: k1 k2)
  case Nil
  show ?case by simp
next
  case (Cons e entries)
  obtain u uts where e: "e = (u, uts)" by (cases e)
  show ?case
  proof (cases "find (\<lambda>p. profile_id p = u) profiles")
    case None
    with Cons [of k1 k2] e show ?thesis by simp
  next
    case (Some profile)
    obtain r1 k1' where r1: "employeeRecord c1 k1 u profile uts = (r1, k1')"
      by (cases "employeeRecord c1 k1 u profile uts")
    obtain r2 k2' where r2: "employeeRecord c2 k2 u profile uts = (r2, k2')"
      by (cases "employeeRecord c2 k2 u profile uts")
    from eraseOverdue_employeeRecord [of c1 k1 u profile uts c2 k2] r1 r2
    have "eraseOverdue r1 = eraseOverdue r2" by simp
    with Cons [of k1' k2'] Some e r1 r2 show ?thesis by (auto split: prod.splits)
  qed
qed

lemma compareFn_eraseOverdue [simp]:
  "compareFn (eraseOverdue a) (eraseOverdue b) = compareFn a b"
  by (simp add: compareFn_def eraseOverdue_def)

lemma insertByScore_eraseOverdue:
  "insertByScore (eraseOverdue x) (map eraseOverdue ys) = map eraseOverdue (insertByScore x ys)"
  by (induction ys) simp_all

lemma sortByScore_eraseOverdue:
  "sortByScore (map eraseOverdue rs) = map eraseOverdue (sortByScore rs)"
  by (induction rs) (simp_all add: sortByScore_def insertByScore_eraseOverdue)

lemma reads_pushTask:
  "sum_list (map (entryReads profiles) (pushTask acc (assigned_user_id t) t)) =
   sum_list (map (entryReads profiles) acc) + (if takesReading profiles t then 1 else 0)"
proof -
  have "sum_list (map (entryReads profiles) (pushTask acc u t)) =
        sum_list (map (entryReads profiles) acc) +
          (if openTask t \<and> find (\<lambda>p. profile_id p = u) profiles \<noteq> None then 1 else 0)" for u
    by (induction acc u t rule: pushTask.induct) (auto simp: entryReads_def)
  then show ?thesis by (simp add: takesReading_def)
qed

lemma reads_groupByUser:
  assumes "groupByUser acc rest = Inr g"
  shows "sum_list (map (entryReads profiles) g) =
         sum_list (map (entryReads profiles) acc) + clockReadings profiles rest"
  using assms
proof (induction rest arbitrary: acc)
  case Nil
  then show ?case by (simp add: clockReadings_def)
next
  case (Cons t rest)
  from Cons.prems have g: "groupByUser (pushTask acc (assigned_user_id t) t) rest = Inr g"
    by (simp add: Let_def split: if_splits)
  from Cons.IH [OF g] show ?case
    by (simp add: reads_pushTask clockReadings_def)
qed

lemma reads_objectEntries:
  "sum_list (map (entryReads profiles) (objectEntries kvs)) =
   sum_list (map (entryReads profiles) kvs)"
proof -
  have "mset (map (entryReads profiles) (objectEntries kvs)) = mset (map (entryReads profiles) kvs)"
    by (simp add: mset_objectEntries)
  then show ?thesis by (metis sum_mset_sum_list)
qed

lemma entries_reads:
  assumes "tasksByUser tasks = Inr g"
  shows "sum_list (map (entryReads profiles) (objectEntries g)) = clockReadings profiles tasks"
  using reads_groupByUser [of "[]" tasks g profiles] assms
  by (simp add: reads_objectEntries tasksByUser_def)

text \<open>
  Claim C6, amended. The report is a function of the tasks, the profiles and the clock
  readings taken during the run. A run that returns reads the clock exactly once for each
  task that is not completed and whose assigned user has a profile (the tasks of a user
  without a profile are skipped before the overdue test, and a completed task is compared
  with its own finish time): \<open>clockReadings profiles tasks\<close> readings in all. Two runs on
  the same tasks and profiles whose clocks agree on these readings return the same result.
  Whatever the clocks, two runs on the same tasks and profiles agree on the order of the
  records and on every field except \<^verbatim>\<open>overdueTasks\<close>.
\<close>

theorem deterministic_given_clock:
  "((\<exists>rs. calculateEmployeePerformance clock1 tasks profiles = Inr rs) \<longrightarrow>
      readingsTaken clock1 tasks profiles = clockReadings profiles tasks) \<and>
   ((\<forall>k<clockReadings profiles tasks. clock1 k = clock2 k) \<longrightarrow>
      calculateEmployeePerformance clock1 tasks profiles =
      calculateEmployeePerformance clock2 tasks profiles) \<and>
   map_sum id (map eraseOverdue) (calculateEmployeePerformance clock1 tasks profiles) =
   map_sum id (map eraseOverdue) (calculateEmployeePerformance clock2 tasks profiles)"
proof (cases "tasksByUser tasks")
  case (Inl e)
  then show ?thesis by (simp add: calculateEmployeePerformance_def performanceData_def)
next
  case (Inr g)
  let ?es = "objectEntries g"
  have reads: "readingsTaken clock1 tasks profiles = clockReadings profiles tasks"
    using buildPerformance_reads_exact [of clock1 0 profiles ?es]
    by (simp add: readingsTaken_def Inr entries_reads [OF Inr])
  have same: "buildPerformance clock1 0 profiles ?es = buildPerformance clock2 0 profiles ?es"
    if "\<forall>k<clockReadings profiles tasks. clock1 k = clock2 k"
    using that by (intro buildPerformance_agree) (simp add: entries_reads [OF Inr])
  have "map eraseOverdue (sortByScore (fst (buildPerformance clock1 0 profiles ?es))) =
        map eraseOverdue (sortByScore (fst (buildPerformance clock2 0 profiles ?es)))"
    using eraseOverdue_build [of clock1 0 profiles ?es clock2 0]
    by (simp flip: sortByScore_eraseOverdue)
  with same reads Inr show ?thesis
    by (auto simp: calculateEmployeePerformance_def performanceData_def)
qed
subsection \<open>The samples\<close>

lemma sampleReport_eval:
  "calculateEmployeePerformance (\<lambda>_. 50) sampleTasks sampleProfiles = Inr sampleReport"
  by code_simp

lemma thirdDone_eval:
  "calculateEmployeePerformance (\<lambda>_. 50) thirdDone sampleProfiles = Inr [thirdDoneRecord]"
  by code_simp

lemma nearlyGood_eval:
  "calculateEmployeePerformance (\<lambda>_. 50) nearlyGood sampleProfiles = Inr [nearlyGoodRecord]"
  by code_simp


text \<open>
  Witness for C9: one of three tasks completed, in time.
\<close>

theorem rates_within_0_100_witness:
  "calculateEmployeePerformance (\<lambda>_. 50) thirdDone sampleProfiles = Inr [thirdDoneRecord] \<and>
   thirdDoneRecord \<in> set [thirdDoneRecord] \<and>
   0 \<le> completionRate thirdDoneRecord \<and> completionRate thirdDoneRecord \<le> 100 \<and>
   0 \<le> punctualityRate thirdDoneRecord \<and> punctualityRate thirdDoneRecord \<le> 100 \<and>
   0 \<le> efficiency thirdDoneRecord \<and> efficiency thirdDoneRecord \<le> 100"
proof -
  have m: "thirdDoneRecord \<in> set [thirdDoneRecord]" by simp
  from rates_within_0_100 [OF thirdDone_eval m] thirdDone_eval
  show ?thesis by simp
qed

text \<open>
  Witness for C10: the completed task \<^verbatim>\<open>b\<close> has no finish time; \<^verbatim>\<open>u2\<close> of the
  sample has it as the only completed task.
\<close>

theorem completed_without_finish_time_witness:
  "overdueFilter (\<lambda>_. 50) 0
      ([userTask ''a'' ''u2'' ''todo'' None None 10]
         @ userTask ''b'' ''u2'' ''completed'' None None 10
         # [userTask ''h'' ''u2'' ''in_progress'' None None 10]) =
     ([userTask ''a'' ''u2'' ''todo'' None None 10,
       userTask ''h'' ''u2'' ''in_progress'' None None 10], 2) \<and>
   tasksCompletedOnTime
      ([userTask ''a'' ''u2'' ''todo'' None None 10]
         @ userTask ''b'' ''u2'' ''completed'' None None 10
         # [userTask ''h'' ''u2'' ''in_progress'' None None 10]) = 0 \<and>
   completedTasks (sampleReport ! 2) = 1 \<and>
   punctualityRate (sampleReport ! 2) = 0 \<and>
   efficiency (sampleReport ! 2) = 0"
proof -
  let ?t = "userTask ''b'' ''u2'' ''completed'' None None 10"
  let ?pre = "[userTask ''a'' ''u2'' ''todo'' None None 10]"
  let ?post = "[userTask ''h'' ''u2'' ''in_progress'' None None 10]"
  have t: "status ?t = ''completed'' \<and> finish_time ?t = None" by (simp add: userTask_def)
  have o: "overdueFilter (\<lambda>_. 50) 0 (?pre @ ?post) = (?pre @ ?post, 2)"
    by (simp add: userTask_def dateLess_def getTime_def)
  have c: "tasksCompletedOnTime (?pre @ ?post) = 0"
    by (simp add: userTask_def tasksCompletedOnTime_def countWhere_def completedOnTime_def)
  have m: "sampleReport ! 2 \<in> set sampleReport" by (simp add: sampleReport_def)
  have a: "\<forall>x\<in>set sampleTasks. assigned_user_id x = emp_id (sampleReport ! 2) \<and>
              status x = ''completed'' \<longrightarrow> finish_time x = None"
    by (simp add: sampleTasks_def sampleReport_def userTask_def)
  have p: "0 < completedTasks (sampleReport ! 2)" by (simp add: sampleReport_def)
  from completed_without_finish_time [of ?t "\<lambda>_. 50" 0 ?pre ?post sampleTasks
      sampleProfiles sampleReport "sampleReport ! 2"]
    t o c sampleReport_eval m a p
  show ?thesis by (simp add: sampleReport_def)
qed

text \<open>
  Witness for C5 (amended): the unrounded sum is just below 70, the reported score is 70
  and the rating is average.
\<close>

theorem performanceScore_is_rounded_weighted_sum_witness:
  "calculateEmployeePerformance (\<lambda>_. 50) nearlyGood sampleProfiles = Inr [nearlyGoodRecord] \<and>
   filter (\<lambda>t. assigned_user_id t = emp_id nearlyGoodRecord) nearlyGood = nearlyGood \<and>
   scoreOf nearlyGood = 2461586632264909 / 35184372088832 \<and>
   performanceScore nearlyGoodRecord = toFixed1 (scoreOf nearlyGood) \<and>
   performanceScore nearlyGoodRecord = 70 \<and>
   scoreOf nearlyGood < 70 \<and>
   performanceRating nearlyGoodRecord = average"
proof -
  have m: "nearlyGoodRecord \<in> set [nearlyGoodRecord]" by simp
  have f: "filter (\<lambda>t. assigned_user_id t = emp_id nearlyGoodRecord) nearlyGood = nearlyGood"
    by (simp add: nearlyGood_def nearlyGoodRecord_def userTask_def)
  have s: "scoreOf nearlyGood = 2461586632264909 / 35184372088832" by code_simp
  note w = performanceScore_is_rounded_weighted_sum [OF nearlyGood_eval m, unfolded Let_def f]
  from w have ps: "performanceScore nearlyGoodRecord = toFixed1 (scoreOf nearlyGood)"
    unfolding scoreOf_def by (rule conjunct1)
  have v: "performanceScore nearlyGoodRecord = 70" "performanceRating nearlyGoodRecord = average"
    by (simp_all add: nearlyGoodRecord_def)
  have lt: "scoreOf nearlyGood < 70" by (simp add: s)
  from nearlyGood_eval f s ps v lt show ?thesis by blast
qed

text \<open>
  Counterexample to C5 as stated. One employee with three tasks, one of them completed in
  time: the record reports the rates 33.3, 100 and 33.3 and the score 66.7 (as doubles).
  The claimed formula on these rates gives 66.65 in exact arithmetic and the double next
  to 66.65 in double arithmetic, not the reported score; the unrounded sum of the code is
  66.66666666666666, not the reported score either. And the employee of the second sample
  is reported with \<^verbatim>\<open>performanceScore\<close> 70 and the rating average, so the rating is
  not "good if and only if the score is at least 70" for the score the record reports.
\<close>

theorem performanceScore_formula_counterexample:
  "calculateEmployeePerformance (\<lambda>_. 50) thirdDone sampleProfiles = Inr [thirdDoneRecord] \<and>
   performanceScore thirdDoneRecord = 4693595236650189 / 70368744177664 \<and>
   performanceScore thirdDoneRecord \<noteq>
     3 / 10 * completionRate thirdDoneRecord + 1 / 4 * punctualityRate thirdDoneRecord +
     1 / 5 * efficiency thirdDoneRecord + 3 / 20 * 100 + 1 / 10 * max 0 (100 - 0) \<and>
   performanceScore thirdDoneRecord \<noteq>
     weightedScore (completionRate thirdDoneRecord) (punctualityRate thirdDoneRecord)
       (efficiency thirdDoneRecord) (timeEfficiency (avgCompletionTime thirdDoneRecord))
       (fl (100 - 0)) \<and>
   performanceScore thirdDoneRecord \<noteq> scoreOf thirdDone \<and>
   calculateEmployeePerformance (\<lambda>_. 50) nearlyGood sampleProfiles = Inr [nearlyGoodRecord] \<and>
   70 \<le> performanceScore nearlyGoodRecord \<and>
   performanceRating nearlyGoodRecord \<noteq> good"
proof -
  have 1: "performanceScore thirdDoneRecord = 4693595236650189 / 70368744177664"
    by (simp add: thirdDoneRecord_def)
  have 2: "3 / 10 * completionRate thirdDoneRecord + 1 / 4 * punctualityRate thirdDoneRecord +
     1 / 5 * efficiency thirdDoneRecord + 3 / 20 * 100 + 1 / 10 * max 0 (100 - 0)
     = 9380153598882611 / 140737488355328"
    by (simp add: thirdDoneRecord_def)
  have 3: "weightedScore (completionRate thirdDoneRecord) (punctualityRate thirdDoneRecord)
     (efficiency thirdDoneRecord) (timeEfficiency (avgCompletionTime thirdDoneRecord))
     (fl (100 - 0)) = 4690076799441305 / 70368744177664"
    by code_simp
  have 4: "scoreOf thirdDone = 2345624805922133 / 35184372088832" by code_simp
  have 5: "70 \<le> performanceScore nearlyGoodRecord \<and> performanceRating nearlyGoodRecord \<noteq> good"
    by (simp add: nearlyGoodRecord_def)
  from thirdDone_eval nearlyGood_eval 1 5 show ?thesis
    unfolding 2 3 4 by simp
qed

lemma tiedData_eval:
  "performanceData (\<lambda>_. 50) tiedTasks sampleProfiles =
     Inr [idleRecord ''7'', topRecord ''u2'', topRecord ''u1'']"
  by code_simp

lemma tiedReport_eval:
  "calculateEmployeePerformance (\<lambda>_. 50) tiedTasks sampleProfiles =
     Inr [topRecord ''u2'', topRecord ''u1'', idleRecord ''7'']"
  by code_simp

text \<open>
  Witness for C8: \<^verbatim>\<open>u2\<close> and \<^verbatim>\<open>u1\<close> have the same score and stay in the order in
  which the loop met them. The employee \<^verbatim>\<open>7\<close> is met first although it occurs last in
  the task list: its id is an array index.
\<close>

theorem sorted_by_score_stable_idempotent_witness:
  "calculateEmployeePerformance (\<lambda>_. 50) tiedTasks sampleProfiles =
     Inr [topRecord ''u2'', topRecord ''u1'', idleRecord ''7''] \<and>
   performanceData (\<lambda>_. 50) tiedTasks sampleProfiles =
     Inr [idleRecord ''7'', topRecord ''u2'', topRecord ''u1''] \<and>
   map performanceScore [topRecord ''u2'', topRecord ''u1'', idleRecord ''7''] = [100, 100, 25] \<and>
   sorted_wrt (\<lambda>a b. performanceScore b \<le> performanceScore a)
     [topRecord ''u2'', topRecord ''u1'', idleRecord ''7''] \<and>
   filter (\<lambda>r. performanceScore r = 100) [topRecord ''u2'', topRecord ''u1'', idleRecord ''7'']
     = filter (\<lambda>r. performanceScore r = 100) [idleRecord ''7'', topRecord ''u2'', topRecord ''u1''] \<and>
   sortByScore [topRecord ''u2'', topRecord ''u1'', idleRecord ''7'']
     = [topRecord ''u2'', topRecord ''u1'', idleRecord ''7'']"
proof -
  have s: "map performanceScore [topRecord ''u2'', topRecord ''u1'', idleRecord ''7'']
             = [100, 100, 25]"
    by (simp add: topRecord_def idleRecord_def)
  from sorted_by_score_stable_idempotent [OF tiedReport_eval] tiedReport_eval tiedData_eval s
  show ?thesis by auto
qed

text \<open>
  Counterexample to C6 as stated: the same task list and profiles, read at two different
  times. The open task with deadline 100 is not overdue at time 50 and overdue at time
  150, so the two reports differ in \<^verbatim>\<open>overdueTasks\<close>.
\<close>

theorem clock_dependence_counterexample:
  "map_sum id (map overdueTasks)
     (calculateEmployeePerformance (\<lambda>_. 50) [userTask ''a'' ''u1'' ''todo'' None None 100]
        sampleProfiles) = Inr [0] \<and>
   map_sum id (map overdueTasks)
     (calculateEmployeePerformance (\<lambda>_. 150) [userTask ''a'' ''u1'' ''todo'' None None 100]
        sampleProfiles) = Inr [1] \<and>
   calculateEmployeePerformance (\<lambda>_. 50) [userTask ''a'' ''u1'' ''todo'' None None 100]
        sampleProfiles \<noteq>
   calculateEmployeePerformance (\<lambda>_. 150) [userTask ''a'' ''u1'' ''todo'' None None 100]
        sampleProfiles"
proof -
  have 1: "map_sum id (map overdueTasks)
     (calculateEmployeePerformance (\<lambda>_. 50) [userTask ''a'' ''u1'' ''todo'' None None 100]
        sampleProfiles) = Inr [0]" by code_simp
  have 2: "map_sum id (map overdueTasks)
     (calculateEmployeePerformance (\<lambda>_. 150) [userTask ''a'' ''u1'' ''todo'' None None 100]
        sampleProfiles) = Inr [1]" by code_simp
  from 1 2 show ?thesis by auto
qed

text \<open>
  Witness for C6 (amended): of the nine sample tasks five are not completed, and one of
  these belongs to a user without a profile, so a run takes four readings; two clocks that
  agree on these four readings and differ afterwards, and two clocks that never agree.
\<close>

theorem deterministic_given_clock_witness:
  "readingsTaken (\<lambda>k. if k < 4 then 50 else 0) sampleTasks sampleProfiles = 4 \<and>
   length (filter openTask sampleTasks) = 5 \<and>
   calculateEmployeePerformance (\<lambda>k. if k < 4 then 50 else 0) sampleTasks sampleProfiles =
   calculateEmployeePerformance (\<lambda>_. 50) sampleTasks sampleProfiles \<and>
   map_sum id (map eraseOverdue)
     (calculateEmployeePerformance (\<lambda>_. 150) sampleTasks sampleProfiles) =
   map_sum id (map eraseOverdue)
     (calculateEmployeePerformance (\<lambda>_. 50) sampleTasks sampleProfiles)"
proof -
  have n: "clockReadings sampleProfiles sampleTasks = 4"
    by (simp add: clockReadings_def takesReading_def openTask_def sampleTasks_def
        sampleProfiles_def sampleProfile_def userTask_def)
  have o: "length (filter openTask sampleTasks) = 5"
    by (simp add: openTask_def sampleTasks_def userTask_def)
  have r: "\<exists>rs. calculateEmployeePerformance (\<lambda>k. if k < 4 then 50 else 0) sampleTasks
      sampleProfiles = Inr rs"
    by (rule calculate_returns) (simp add: sampleTasks_def userTask_def protoKeys_def)
  from deterministic_given_clock [of "\<lambda>k. if k < 4 then 50 else 0" sampleTasks sampleProfiles
      "\<lambda>_. 50"]
    deterministic_given_clock [of "\<lambda>_. 150" sampleTasks sampleProfiles "\<lambda>_. 50"] n o r
  show ?thesis by simp
qed

end
